theory Spec2Isabelle
  imports Complex_Main
begin

section \<open>Strings and the regular expressions of the formatter\<close>

text \<open>
  A JavaScript string is modelled as a \<^typ>\<open>string\<close>, one \<^typ>\<open>char\<close> per code unit; the
  model covers the code units below 256. Every regular expression of
  \<^verbatim>\<open>formatMessage\<close> has the shape "literal, then any characters, then literal", so each
  is modelled by a left-to-right scanner that does what the backtracking matcher does on
  that shape.
\<close>

definition newline :: char where
  "newline = CHR 0x0A"

definition backslash :: char where
  "backslash = CHR 0x5C"

text \<open>
  The \<^verbatim>\<open>i\<close> flag (without \<^verbatim>\<open>u\<close>) compares characters after mapping them to upper case,
  and never maps a character outside ASCII to one inside: on the ASCII patterns of the
  source only the letters \<^verbatim>\<open>a\<close> to \<^verbatim>\<open>z\<close> are affected.
\<close>

definition canonicalize :: "char \<Rightarrow> char" where
  "canonicalize c =
     (case map_of (zip ''abcdefghijklmnopqrstuvwxyz'' ''ABCDEFGHIJKLMNOPQRSTUVWXYZ'') c of
        Some u \<Rightarrow> u
      | None \<Rightarrow> c)"

definition ceq :: "char \<Rightarrow> char \<Rightarrow> bool" where
  "ceq a b = (canonicalize a = canonicalize b)"

text \<open>\<open>starts_ci pat s\<close>: the literal \<open>pat\<close> matches at the start of \<open>s\<close>, ignoring case.\<close>

fun starts_ci :: "string \<Rightarrow> string \<Rightarrow> bool" where
  "starts_ci [] s = True"
| "starts_ci (p # ps) [] = False"
| "starts_ci (p # ps) (c # cs) = (ceq p c \<and> starts_ci ps cs)"

text \<open>\<open>contains_ci pat s\<close>: the literal \<open>pat\<close> matches somewhere in \<open>s\<close>, ignoring case.\<close>

fun contains_ci :: "string \<Rightarrow> string \<Rightarrow> bool" where
  "contains_ci pat [] = starts_ci pat []"
| "contains_ci pat (c # cs) = (starts_ci pat (c # cs) \<or> contains_ci pat cs)"

text \<open>The text after the first match of \<open>pat\<close> in \<open>s\<close>, if there is one.\<close>

fun after_first_ci :: "string \<Rightarrow> string \<Rightarrow> string option" where
  "after_first_ci pat [] = (if starts_ci pat [] then Some [] else None)"
| "after_first_ci pat (c # cs) =
     (if starts_ci pat (c # cs) then Some (drop (length pat) (c # cs))
      else after_first_ci pat cs)"

lemma after_first_ci_length:
  "after_first_ci pat s = Some r \<Longrightarrow> length r \<le> length s"
  by (induction s) (auto split: if_splits)

text \<open>
  \<^verbatim>\<open>text.replace(/OPEN[\s\S]*?CLOSE/gi, '')\<close>: at each position where \<open>OPEN\<close> matches and
  a \<open>CLOSE\<close> follows, the text up to the end of the first such \<open>CLOSE\<close> is dropped and the
  scan goes on behind it; everywhere else the character is kept. (The source has no
  empty \<open>OPEN\<close>; the model keeps the text unchanged for it.)
\<close>

function remove_pairs :: "string \<Rightarrow> string \<Rightarrow> string \<Rightarrow> string" where
  "remove_pairs op cl [] = []"
| "remove_pairs [] cl (c # cs) = c # cs"
| "remove_pairs (p # ps) cl (c # cs) =
     (if starts_ci (p # ps) (c # cs)
      then (case after_first_ci cl (drop (length ps) cs) of
              Some rest \<Rightarrow> remove_pairs (p # ps) cl rest
            | None \<Rightarrow> c # remove_pairs (p # ps) cl cs)
      else c # remove_pairs (p # ps) cl cs)"
  by pat_completeness auto
termination
proof (relation "measure (\<lambda>(op, cl, s). length s)")
  fix p ps cl c cs rest
  assume "after_first_ci cl (drop (length ps) cs) = Some rest"
  then have "length rest \<le> length (drop (length ps) cs)"
    by (rule after_first_ci_length)
  then show "((p # ps, cl, rest), (p # ps, cl, c # cs)) \<in> measure (\<lambda>(op, cl, s). length s)"
    by simp
qed simp_all

text \<open>
  \<^verbatim>\<open>text.replace(/OPEN[\s\S]*/gi, '')\<close>: the first match runs to the end of the string, so
  what stays is the text before the first \<open>OPEN\<close>.
\<close>

fun remove_from :: "string \<Rightarrow> string \<Rightarrow> string" where
  "remove_from op [] = []"
| "remove_from op (c # cs) = (if starts_ci op (c # cs) then [] else c # remove_from op cs)"

text \<open>\<^verbatim>\<open>String.prototype.trim\<close>, on the white space and line terminators below 256.\<close>

definition isWhiteSpace :: "char \<Rightarrow> bool" where
  "isWhiteSpace c = (of_char c \<in> {9, 10, 11, 12, 13, 32, 160 :: nat})"

definition trim :: "string \<Rightarrow> string" where
  "trim s = rev (dropWhile isWhiteSpace (rev (dropWhile isWhiteSpace s)))"

definition think_open :: string where
  "think_open = ''<think>''"

definition think_close :: string where
  "think_close = ''</think>''"

definition esc_open :: string where
  "esc_open = ''&lt;think&gt;''"

definition esc_close :: string where
  "esc_close = ''&lt;/think&gt;''"

text \<open>Stage 1 of \<^verbatim>\<open>formatMessage\<close>: the four removal passes, each followed by a trim.\<close>

definition stripThink :: "string \<Rightarrow> string" where
  "stripThink text =
     (let cleanText = trim (remove_pairs think_open think_close text);
          cleanText = trim (remove_pairs esc_open esc_close cleanText);
          cleanText = trim (remove_from think_open cleanText);
          cleanText = trim (remove_from esc_open cleanText)
      in cleanText)"

subsection \<open>Math masking\<close>

text \<open>The first exact occurrence of \<open>pat\<close> in \<open>s\<close>: the text before it and the text after it.\<close>

fun starts_with :: "string \<Rightarrow> string \<Rightarrow> bool" where
  "starts_with [] s = True"
| "starts_with (p # ps) [] = False"
| "starts_with (p # ps) (c # cs) = (p = c \<and> starts_with ps cs)"

fun split_first :: "string \<Rightarrow> string \<Rightarrow> (string \<times> string) option" where
  "split_first pat [] = (if starts_with pat [] then Some ([], []) else None)"
| "split_first pat (c # cs) =
     (if starts_with pat (c # cs) then Some ([], drop (length pat) (c # cs))
      else map_option (\<lambda>(b, a). (c # b, a)) (split_first pat cs))"

text \<open>
  \<^verbatim>\<open>OPEN([\s\S]+?)CLOSE\<close> at the start of \<open>t\<close>: the captured group (at least one character,
  as few as possible) and the text behind the match.
\<close>

definition delimited :: "string \<Rightarrow> string \<Rightarrow> string \<Rightarrow> (string \<times> string) option" where
  "delimited op cl t =
     (if starts_with op t
      then (case drop (length op) t of
              [] \<Rightarrow> None
            | c # cs \<Rightarrow> map_option (\<lambda>(b, a). (c # b, a)) (split_first cl cs))
      else None)"

text \<open>\<^verbatim>\<open>\$([^\$\n]+?)\$\<close> at the start of \<open>t\<close>.\<close>

definition dollar_inline :: "string \<Rightarrow> (string \<times> string) option" where
  "dollar_inline t =
     (case t of
        [] \<Rightarrow> None
      | d # cs \<Rightarrow>
          if d = CHR ''$'' then
            (let body = takeWhile (\<lambda>c. c \<noteq> CHR ''$'' \<and> c \<noteq> newline) cs;
                 rest = dropWhile (\<lambda>c. c \<noteq> CHR ''$'' \<and> c \<noteq> newline) cs
             in if body \<noteq> [] \<and> starts_with ''$'' rest then Some (body, drop 1 rest) else None)
          else None)"

text \<open>The two alternatives of each masking expression, the first one tried first.\<close>

definition display_match :: "string \<Rightarrow> (string \<times> string) option" where
  "display_match t =
     (case delimited ''$$'' ''$$'' t of
        Some r \<Rightarrow> Some r
      | None \<Rightarrow> delimited [backslash, CHR ''[''] [backslash, CHR '']''] t)"

definition inline_match :: "string \<Rightarrow> (string \<times> string) option" where
  "inline_match t =
     (case dollar_inline t of
        Some r \<Rightarrow> Some r
      | None \<Rightarrow> delimited [backslash, CHR ''(''] [backslash, CHR '')''] t)"

lemma split_first_length:
  "split_first pat s = Some (b, a) \<Longrightarrow> length a \<le> length s"
  by (induction s arbitrary: b) (auto split: if_splits)

lemma delimited_length:
  assumes "delimited op cl t = Some (b, a)"
  shows "length a < length t"
proof -
  from assms obtain c cs b' where d: "drop (length op) t = c # cs"
    and s: "split_first cl cs = Some (b', a)"
    by (auto simp: delimited_def split: if_splits list.splits)
  from s have "length a \<le> length cs" by (rule split_first_length)
  moreover have "length (c # cs) \<le> length t" using d [symmetric] by simp
  ultimately show ?thesis by simp
qed

lemma dollar_inline_length:
  assumes "dollar_inline t = Some (b, a)"
  shows "length a < length t"
proof -
  from assms obtain d cs where t: "t = d # cs"
    and a: "a = drop 1 (dropWhile (\<lambda>c. c \<noteq> CHR ''$'' \<and> c \<noteq> newline) cs)"
    by (auto simp: dollar_inline_def Let_def split: list.splits if_splits)
  have "length (dropWhile (\<lambda>c. c \<noteq> CHR ''$'' \<and> c \<noteq> newline) cs) \<le> length cs"
    by (rule length_dropWhile_le)
  then show ?thesis using t a by simp
qed

lemma display_match_length: "display_match t = Some (b, a) \<Longrightarrow> length a < length t"
  by (auto simp: display_match_def split: option.splits dest: delimited_length)

lemma inline_match_length: "inline_match t = Some (b, a) \<Longrightarrow> length a < length t"
  by (auto simp: inline_match_def split: option.splits
      dest: delimited_length dollar_inline_length)

text \<open>\<^verbatim>\<open>String(n)\<close> for an array index \<open>n\<close>.\<close>

fun showNat :: "nat \<Rightarrow> string" where
  "showNat n =
     (if n < 10 then [char_of (48 + n)]
      else showNat (n div 10) @ [char_of (48 + n mod 10)])"

declare showNat.simps [simp del]

definition placeholder :: "string \<Rightarrow> nat \<Rightarrow> string" where
  "placeholder kind n = ''%%%'' @ kind @ showNat n @ ''%%%''"

text \<open>
  \<^verbatim>\<open>content.replace(/.../g, (m, full, a, b) => ...)\<close>: every match is replaced by the token
  that carries the index at which its trimmed body was pushed. \<open>tbl\<close> is the array so far.
\<close>

function maskDisplay :: "string list \<Rightarrow> string \<Rightarrow> string \<times> string list" where
  "maskDisplay displayMath [] = ([], displayMath)"
| "maskDisplay displayMath (c # cs) =
     (case display_match (c # cs) of
        Some (tex, rest) \<Rightarrow>
          (let displayMath' = displayMath @ [trim tex];
               (out, final) = maskDisplay displayMath' rest
           in (placeholder ''DISPLAY'' (length displayMath' - 1) @ out, final))
      | None \<Rightarrow> (let (out, final) = maskDisplay displayMath cs in (c # out, final)))"
  by pat_completeness auto
termination
  by (relation "measure (\<lambda>(tbl, s). length s)") (auto dest: display_match_length)

function maskInline :: "string list \<Rightarrow> string \<Rightarrow> string \<times> string list" where
  "maskInline inlineMath [] = ([], inlineMath)"
| "maskInline inlineMath (c # cs) =
     (case inline_match (c # cs) of
        Some (tex, rest) \<Rightarrow>
          (let inlineMath' = inlineMath @ [trim tex];
               (out, final) = maskInline inlineMath' rest
           in (placeholder ''INLINE'' (length inlineMath' - 1) @ out, final))
      | None \<Rightarrow> (let (out, final) = maskInline inlineMath cs in (c # out, final)))"
  by pat_completeness auto
termination
  by (relation "measure (\<lambda>(tbl, s). length s)") (auto dest: inline_match_length)


subsection \<open>Math restoration\<close>

definition isDigit :: "char \<Rightarrow> bool" where
  "isDigit c = (48 \<le> (of_char c :: nat) \<and> (of_char c :: nat) \<le> 57)"

text \<open>\<^verbatim>\<open>%%%KIND(\d+)%%%\<close> at the start of \<open>t\<close>: the digits and the text behind the match.\<close>

definition token_match :: "string \<Rightarrow> string \<Rightarrow> (string \<times> string) option" where
  "token_match kind t =
     (if starts_with (''%%%'' @ kind) t
      then (let r = drop (length (''%%%'' @ kind)) t;
                ds = takeWhile isDigit r;
                r' = dropWhile isDigit r
            in if ds \<noteq> [] \<and> starts_with ''%%%'' r' then Some (ds, drop 3 r') else None)
      else None)"

lemma token_match_length:
  assumes "token_match kind t = Some (ds, a)"
  shows "length a < length t"
proof -
  let ?r = "drop (length (''%%%'' @ kind)) t"
  from assms have a: "a = drop 3 (dropWhile isDigit ?r)" and ds: "takeWhile isDigit ?r \<noteq> []"
    by (auto simp: token_match_def Let_def split: if_splits)
  from ds have "?r \<noteq> []" by auto
  then have "length ?r \<le> length t" "t \<noteq> []" by auto
  moreover have "length (dropWhile isDigit ?r) < length ?r"
    using ds by (cases ?r) (auto simp: less_Suc_eq_le length_dropWhile_le split: if_splits)
  ultimately show ?thesis using a by simp
qed

text \<open>
  \<^verbatim>\<open>arr[i]\<close> for a string \<open>i\<close> of digits, inside a template literal: the digits name an
  element only when they are the canonical spelling of its index; any other key is
  \<^verbatim>\<open>undefined\<close>, which the template prints as the word.
\<close>

definition digitsValue :: "string \<Rightarrow> nat" where
  "digitsValue ds = foldl (\<lambda>n c. 10 * n + (of_char c - 48)) 0 ds"

definition lookupIndex :: "string list \<Rightarrow> string \<Rightarrow> string" where
  "lookupIndex arr ds =
     (if (ds = ''0'' \<or> \<not> starts_with ''0'' ds) \<and> digitsValue ds < length arr
      then arr ! digitsValue ds else ''undefined'')"

text \<open>\<^verbatim>\<open>html.replace(/%%%KIND(\d+)%%%/g, (m, i) => ...)\<close>, the replacement given by \<open>wrap\<close>.\<close>

function restore :: "string \<Rightarrow> (string \<Rightarrow> string) \<Rightarrow> string \<Rightarrow> string" where
  "restore kind wrap [] = []"
| "restore kind wrap (c # cs) =
     (case token_match kind (c # cs) of
        Some (i, rest) \<Rightarrow> wrap i @ restore kind wrap rest
      | None \<Rightarrow> c # restore kind wrap cs)"
  by pat_completeness auto
termination
  by (relation "measure (\<lambda>(kind, wrap, s). length s)") (auto dest: token_match_length)

definition restoreMath :: "string list \<Rightarrow> string list \<Rightarrow> string \<Rightarrow> string" where
  "restoreMath displayMath inlineMath html =
     (let html = restore ''DISPLAY'' (\<lambda>i. ''$$'' @ lookupIndex displayMath i @ ''$$'') html;
          html = restore ''INLINE''
                   (\<lambda>i. [backslash, CHR ''(''] @ lookupIndex inlineMath i @ [backslash, CHR '')''])
                   html
      in html)"

subsection \<open>The formatter\<close>

text \<open>
  The children of \<^verbatim>\<open>#chat-history\<close>: a message of one of the three classes with what its
  bubble holds (markup for \<^verbatim>\<open>ai\<close> and \<^verbatim>\<open>system\<close>, plain text for \<^verbatim>\<open>user\<close>), or the
  loading animation. A DOM node that the code holds on to is its position in the list.
\<close>

datatype msgType = UserMsg | AiMsg | SystemMsg

datatype node = Message msgType string | Loading

text \<open>
  The scroll geometry of \<^verbatim>\<open>#chat-history\<close>. Its three properties are JavaScript Numbers;
  \<open>'n\<close> is their type.
\<close>

record 'n viewport =
  scrollHeight :: 'n
  scrollTop :: 'n
  clientHeight :: 'n

text \<open>
  What the page finds around it. The markdown engine and the sanitizer are collaborators
  outside the repository: each is a function that returns markup or throws. \<open>marked\<close> and
  \<open>DOMPurify\<close> are \<open>None\<close> when the library could not be loaded; \<open>electronAPI\<close> and \<open>mathJax\<close>
  say whether \<^verbatim>\<open>window.electronAPI\<close> and \<^verbatim>\<open>window.MathJax.typesetPromise\<close> are there.

  The rest is the browser, which the source does not contain either. \<open>numSub\<close> is the
  subtraction of two Numbers (of IEEE doubles, with its rounding), \<open>numLess\<close> their
  comparison \<^verbatim>\<open><\<close> and \<open>num50\<close> the Number \<^verbatim>\<open>50\<close>. \<open>reflow ns g\<close> is the geometry that layout
  gives when the children become \<open>ns\<close> in the geometry \<open>g\<close>, and \<open>scrollTo v g\<close> the geometry
  after the assignment \<^verbatim>\<open>scrollTop = v\<close>. Nothing is assumed about any of them.
\<close>

datatype error = Thrown

record 'n deps =
  marked :: "(string \<Rightarrow> error + string) option"
  DOMPurify :: "(string \<Rightarrow> error + string) option"
  electronAPI :: bool
  mathJax :: bool
  numSub :: "'n \<Rightarrow> 'n \<Rightarrow> 'n"
  numLess :: "'n \<Rightarrow> 'n \<Rightarrow> bool"
  num50 :: 'n
  reflow :: "node list \<Rightarrow> 'n viewport \<Rightarrow> 'n viewport"
  scrollTo :: "'n \<Rightarrow> 'n viewport \<Rightarrow> 'n viewport"

text \<open>The \<^verbatim>\<open>try\<close> block of \<^verbatim>\<open>formatMessage\<close>: parse, then sanitize when a sanitizer is there.\<close>

definition parseAndSanitize :: "'n deps \<Rightarrow> (string \<Rightarrow> error + string) \<Rightarrow> string \<Rightarrow> error + string" where
  "parseAndSanitize d parse content =
     (case parse content of
        Inl e \<Rightarrow> Inl e
      | Inr html \<Rightarrow> (case DOMPurify d of None \<Rightarrow> Inr html | Some sanitize \<Rightarrow> sanitize html))"

text \<open>Stage 2: display spans are masked first, inline spans in what is left.\<close>

definition protectMath :: "string \<Rightarrow> string \<times> string list \<times> string list" where
  "protectMath cleanText =
     (let (content, displayMath) = maskDisplay [] cleanText;
          (content, inlineMath) = maskInline [] content
      in (content, displayMath, inlineMath))"

text \<open>Stages 2 to 5, on the text that stage 1 hands over.\<close>

definition renderClean :: "'n deps \<Rightarrow> (string \<Rightarrow> error + string) \<Rightarrow> string \<Rightarrow> string" where
  "renderClean d parse cleanText =
     (let (content, displayMath, inlineMath) = protectMath cleanText;
          html = (case parseAndSanitize d parse content of
                    Inr html \<Rightarrow> html
                  | Inl e \<Rightarrow> content)
      in restoreMath displayMath inlineMath html)"

definition nl2br :: "string \<Rightarrow> string" where
  "nl2br text = concat (map (\<lambda>c. if c = newline then ''<br>'' else [c]) text)"

definition formatMessage :: "'n deps \<Rightarrow> string \<Rightarrow> string" where
  "formatMessage d text =
     (case marked d of
        None \<Rightarrow> nl2br text
      | Some parse \<Rightarrow> renderClean d parse (stripThink text))"




text \<open>
  For concrete runs. A stand-in browser on whole pixels, where the subtraction of
  Numbers is exact: a message is as high as 40 pixels and one more for each character of
  its bubble, the loading animation 40 pixels, and \<^verbatim>\<open>scrollTop\<close> is kept between 0 and the
  largest offset. With it, a stand-in engine that returns its input, with no sanitizer,
  and one whose parser throws on every input.
\<close>

definition nodeHeight :: "node \<Rightarrow> int" where
  "nodeHeight n = (case n of Message t body \<Rightarrow> 40 + int (length body) | Loading \<Rightarrow> 40)"

definition pixelReflow :: "node list \<Rightarrow> int viewport \<Rightarrow> int viewport" where
  "pixelReflow ns g = g\<lparr>scrollHeight := max (clientHeight g) (sum_list (map nodeHeight ns))\<rparr>"

definition pixelScrollTo :: "int \<Rightarrow> int viewport \<Rightarrow> int viewport" where
  "pixelScrollTo v g = g\<lparr>scrollTop := max 0 (min v (scrollHeight g - clientHeight g))\<rparr>"

definition plainDeps :: "int deps" where
  "plainDeps =
     \<lparr>marked = Some Inr, DOMPurify = None, electronAPI = False, mathJax = False,
      numSub = (\<lambda>x y. x - y), numLess = (\<lambda>x y. x < y), num50 = 50,
      reflow = pixelReflow, scrollTo = pixelScrollTo\<rparr>"



section \<open>The chat view, the transcript and one turn\<close>

datatype role = User | Assistant | System

record turn =
  role :: role
  content :: string

text \<open>What the code does to the world outside the view and the transcript, in program order.\<close>

datatype effect =
    SaveHistory "turn list"
  | Fetch "turn list"
  | Typeset "nat option"
  | ScrollToBottom

record 'n app =
  messageInput :: string
  conversationHistory :: "turn list"
  chatHistory :: "node list"
  geometry :: "'n viewport"
  effects :: "effect list"

text \<open>
  \<^verbatim>\<open>isAtBottom\<close> reads the three properties as they are at the call and subtracts from left
  to right.
\<close>

definition isAtBottom :: "'n deps \<Rightarrow> 'n viewport \<Rightarrow> bool" where
  "isAtBottom d g =
     numLess d (numSub d (numSub d (scrollHeight g) (scrollTop g)) (clientHeight g)) (num50 d)"

definition emit :: "effect \<Rightarrow> 'n app \<Rightarrow> 'n app" where
  "emit e a = a\<lparr>effects := effects a @ [e]\<rparr>"

text \<open>
  A change of the children of \<^verbatim>\<open>#chat-history\<close> (a node appended or removed, the markup of
  a bubble replaced) and the layout that follows it; and the assignment
  \<^verbatim>\<open>chatHistory.scrollTop = chatHistory.scrollHeight\<close>.
\<close>

definition setChildren :: "'n deps \<Rightarrow> node list \<Rightarrow> 'n app \<Rightarrow> 'n app" where
  "setChildren d ns a = a\<lparr>chatHistory := ns, geometry := reflow d ns (geometry a)\<rparr>"

definition scrollToBottom :: "'n deps \<Rightarrow> 'n app \<Rightarrow> 'n app" where
  "scrollToBottom d a =
     emit ScrollToBottom (a\<lparr>geometry := scrollTo d (scrollHeight (geometry a)) (geometry a)\<rparr>)"

text \<open>\<^verbatim>\<open>addMessage(text, type)\<close>: returns the new bubble, as its position in the view.\<close>

definition addMessage :: "'n deps \<Rightarrow> string \<Rightarrow> msgType \<Rightarrow> 'n app \<Rightarrow> 'n app \<times> nat" where
  "addMessage d text type a =
     (let bubble = length (chatHistory a);
          body = (if type = AiMsg \<or> type = SystemMsg then formatMessage d text else text);
          a = (if (type = AiMsg \<or> type = SystemMsg) \<and> mathJax d
               then emit (Typeset (Some bubble)) a else a);
          a = setChildren d (chatHistory a @ [Message type body]) a;
          a = scrollToBottom d a
      in (a, bubble))"

definition saveHistory :: "'n deps \<Rightarrow> 'n app \<Rightarrow> 'n app" where
  "saveHistory d a = (if electronAPI d then emit (SaveHistory (conversationHistory a)) a else a)"

definition removeChild :: "nat \<Rightarrow> node list \<Rightarrow> node list" where
  "removeChild i ns = take i ns @ drop (Suc i) ns"

text \<open>
  The local variables of \<^verbatim>\<open>sendMessage\<close>. \<open>loadingDiv\<close> is the position of the loading
  animation while it is in the view (\<^verbatim>\<open>loadingDiv.parentNode\<close>), \<open>aiBubble\<close> the position of
  the reply's bubble once there is one.
\<close>

record locals =
  accumulatedText :: string
  rawAiResponse :: string
  isFirstMsg :: bool
  shouldAutoScroll :: bool
  aiBubble :: "nat option"
  loadingDiv :: "nat option"

definition initLocals :: "nat \<Rightarrow> locals" where
  "initLocals l =
     \<lparr>accumulatedText = [], rawAiResponse = [], isFirstMsg = True, shouldAutoScroll = True,
      aiBubble = None, loadingDiv = Some l\<rparr>"

text \<open>
  What the backend does to one request: the request fails, or a response arrives with its
  \<^verbatim>\<open>ok\<close> flag and a body. The body is the decoded chunks and then the end of the stream or
  a failed read. While a read is pending the user may scroll and the window may change:
  each chunk, and the end of the stream, comes with the geometry that the page has at
  that moment.

  The model follows one call of \<^verbatim>\<open>sendMessage\<close> whose stream ends, with no other event
  handler running between its reads. Left out, as they touch neither the transcript nor
  the list of messages: the height of the input box, the settings that the request body
  reads from local storage, the re-highlighting of code blocks inside a bubble, and the
  delayed second attempt of \<^verbatim>\<open>addMessage\<close> to typeset. \<^verbatim>\<open>typesetPromise\<close> returns a promise,
  and what goes wrong inside it ends in the \<^verbatim>\<open>catch\<close> handler attached to it: the call is
  an effect that does not throw.
\<close>

datatype 'n streamEnd = Done "'n viewport" | ReadFailed

datatype 'n response = FetchFailed | Response bool "('n viewport \<times> string) list" "'n streamEnd"

text \<open>
  One turn of the \<^verbatim>\<open>while\<close> loop on a chunk: the read returns in the geometry \<open>vp\<close>, the
  decision is taken there, and only then the chunk goes into the view.
\<close>

definition onChunk :: "'n deps \<Rightarrow> 'n viewport \<times> string \<Rightarrow> 'n app \<times> locals \<Rightarrow> 'n app \<times> locals" where
  "onChunk d ev st =
     (let (vp, chunk) = ev;
          (a, s) = st;
          a = a\<lparr>geometry := vp\<rparr>;
          s = s\<lparr>shouldAutoScroll := isAtBottom d (geometry a)\<rparr>;
          s = s\<lparr>accumulatedText := accumulatedText s @ chunk\<rparr>;
          s = s\<lparr>rawAiResponse := rawAiResponse s @ chunk\<rparr>;
          (a, s) =
            (if isFirstMsg s then
               (let a = (case loadingDiv s of
                           Some l \<Rightarrow> setChildren d (removeChild l (chatHistory a)) a
                         | None \<Rightarrow> a);
                    s = s\<lparr>loadingDiv := None\<rparr>;
                    (a, bubble) = addMessage d [] AiMsg a
                in (a, s\<lparr>aiBubble := Some bubble, isFirstMsg := False, shouldAutoScroll := True\<rparr>))
             else (a, s));
          a = (case aiBubble s of
                 Some b \<Rightarrow>
                   setChildren d
                     ((chatHistory a)[b := Message AiMsg (formatMessage d (accumulatedText s))]) a
               | None \<Rightarrow> a);
          a = (if shouldAutoScroll s then scrollToBottom d a else a)
      in (a, s))"

definition errorText :: string where
  "errorText = ''Error: Could not connect to Backend. Make sure '' @ [CHR 0x27] @
     ''start_app.sh'' @ [CHR 0x27] @ '' is running.''"

text \<open>The \<^verbatim>\<open>catch\<close> block.\<close>

definition onError :: "'n deps \<Rightarrow> 'n app \<times> locals \<Rightarrow> 'n app" where
  "onError d st =
     (let (a, s) = st;
          a = (case loadingDiv s of
                 Some l \<Rightarrow> setChildren d (removeChild l (chatHistory a)) a
               | None \<Rightarrow> a)
      in fst (addMessage d errorText SystemMsg a))"

text \<open>
  \<^verbatim>\<open>sendMessage\<close> up to the point where the request leaves: the state in which
  \<^verbatim>\<open>fetch\<close> is called, with the request body's \<^verbatim>\<open>messages\<close> as the last effect.
\<close>

definition submit :: "'n deps \<Rightarrow> string \<Rightarrow> 'n app \<Rightarrow> 'n app \<times> locals" where
  "submit d text a =
     (let a = a\<lparr>messageInput := []\<rparr>;
          a = fst (addMessage d text UserMsg a);
          a = a\<lparr>conversationHistory := conversationHistory a @ [\<lparr>role = User, content = text\<rparr>]\<rparr>;
          a = saveHistory d a;
          l = length (chatHistory a);
          a = setChildren d (chatHistory a @ [Loading]) a;
          a = scrollToBottom d a;
          a = emit (Fetch (conversationHistory a)) a
      in (a, initLocals l))"

text \<open>The rest of the \<^verbatim>\<open>try\<close> block, once the read has returned the end of the stream.\<close>

definition finish :: "'n deps \<Rightarrow> 'n viewport \<Rightarrow> 'n app \<times> locals \<Rightarrow> 'n app" where
  "finish d vp st =
     (let (a, s) = st;
          a = a\<lparr>geometry := vp\<rparr>;
          s = s\<lparr>shouldAutoScroll := isAtBottom d (geometry a)\<rparr>;
          a = (if mathJax d then emit (Typeset (aiBubble s)) a else a);
          a = a\<lparr>conversationHistory :=
                  conversationHistory a @ [\<lparr>role = Assistant, content = rawAiResponse s\<rparr>]\<rparr>
      in saveHistory d a)"

definition receive :: "'n deps \<Rightarrow> 'n response \<Rightarrow> 'n app \<times> locals \<Rightarrow> 'n app" where
  "receive d resp st =
     (case resp of
        FetchFailed \<Rightarrow> onError d st
      | Response ok chunks ending \<Rightarrow>
          if \<not> ok then onError d st
          else (let st = fold (onChunk d) chunks st
                in case ending of
                     ReadFailed \<Rightarrow> onError d st
                   | Done vp \<Rightarrow> finish d vp st))"

definition sendMessage :: "'n deps \<Rightarrow> 'n response \<Rightarrow> 'n app \<Rightarrow> 'n app" where
  "sendMessage d resp a =
     (let text = trim (messageInput a)
      in if text = [] then a else receive d resp (submit d text a))"

text \<open>
  Two shapes of the state inside one turn, for the proofs. \<open>awaiting\<close>: the request is out
  and no chunk has come; the view ends in the loading animation. \<open>streaming\<close>: chunks
  with the text \<open>acc\<close> have come; the view ends in the reply's bubble, which shows \<open>acc\<close>
  formatted. \<open>V\<close> is the view in front of it and \<open>H\<close> the transcript.
\<close>

definition awaiting :: "node list \<Rightarrow> turn list \<Rightarrow> 'n app \<times> locals \<Rightarrow> bool" where
  "awaiting V H st =
     (chatHistory (fst st) = V @ [Loading] \<and> conversationHistory (fst st) = H \<and>
      loadingDiv (snd st) = Some (length V) \<and> aiBubble (snd st) = None \<and>
      isFirstMsg (snd st) \<and> accumulatedText (snd st) = [] \<and> rawAiResponse (snd st) = [])"

definition streaming :: "'n deps \<Rightarrow> node list \<Rightarrow> turn list \<Rightarrow> string \<Rightarrow> 'n app \<times> locals \<Rightarrow> bool" where
  "streaming d V H acc st =
     (chatHistory (fst st) = V @ [Message AiMsg (formatMessage d acc)] \<and>
      conversationHistory (fst st) = H \<and>
      loadingDiv (snd st) = None \<and> aiBubble (snd st) = Some (length V) \<and>
      \<not> isFirstMsg (snd st) \<and> accumulatedText (snd st) = acc \<and> rawAiResponse (snd st) = acc)"

text \<open>A transport failure, and the bubble that a failed turn leaves behind.\<close>

definition transportFailure :: "'n response \<Rightarrow> bool" where
  "transportFailure resp =
     (case resp of
        FetchFailed \<Rightarrow> True
      | Response ok chunks ending \<Rightarrow> (if ok then ending = ReadFailed else True))"

definition streamedSoFar :: "'n deps \<Rightarrow> 'n response \<Rightarrow> node list" where
  "streamedSoFar d resp =
     (case resp of
        FetchFailed \<Rightarrow> []
      | Response ok chunks ending \<Rightarrow>
          (if ok \<and> chunks \<noteq> [] then [Message AiMsg (formatMessage d (concat (map snd chunks)))]
           else []))"

text \<open>
  For the proofs: \<open>eq_ci s pat\<close> says that \<open>s\<close> is a spelling of the literal \<open>pat\<close> in some
  case; \<open>no_inner pat ch\<close> says that \<open>ch\<close> occurs in \<open>pat\<close> at most as its first character.
\<close>

definition eq_ci :: "string \<Rightarrow> string \<Rightarrow> bool" where
  "eq_ci s pat = (length s = length pat \<and> starts_ci pat s)"

definition no_inner :: "string \<Rightarrow> char \<Rightarrow> bool" where
  "no_inner pat ch = list_all (\<lambda>x. \<not> ceq x ch) (tl pat)"

text \<open>\<open>unbordered pat\<close>: no proper end of \<open>pat\<close> is, in some case, a beginning of it.\<close>

definition unbordered :: "string \<Rightarrow> bool" where
  "unbordered pat = list_all (\<lambda>k. \<not> starts_ci (drop k pat) pat) [1..<length pat]"


text \<open>Concrete inputs for the runs below.\<close>

definition farFromBottom :: "int viewport" where
  "farFromBottom = \<lparr>scrollHeight = 1000, scrollTop = 0, clientHeight = 400\<rparr>"


definition freshApp :: "int app" where
  "freshApp = \<lparr>messageInput = ''What is 2+2?'', conversationHistory = [], chatHistory = [],
     geometry = \<lparr>scrollHeight = 60, scrollTop = 0, clientHeight = 60\<rparr>, effects = []\<rparr>"

section \<open>Facts about the scanners\<close>

lemma ceq_refl [simp]: "ceq a a"
  by (simp add: ceq_def)

lemma ceq_sym: "ceq a b \<Longrightarrow> ceq b a"
  by (simp add: ceq_def)

lemma ceq_trans: "ceq a b \<Longrightarrow> ceq b c \<Longrightarrow> ceq a c"
  by (simp add: ceq_def)

lemma starts_ci_Nil [simp]: "starts_ci pat [] = (pat = [])"
  by (cases pat) auto

lemma contains_ci_Nil [simp]: "contains_ci pat [] = (pat = [])"
  by simp

lemma contains_ci_empty [simp]: "contains_ci [] s"
  by (cases s) auto

lemma starts_ci_append: "starts_ci pat x \<Longrightarrow> starts_ci pat (x @ y)"
  by (induction pat x rule: starts_ci.induct) auto

lemma starts_ci_length: "starts_ci pat s \<Longrightarrow> length pat \<le> length s"
  by (induction pat s rule: starts_ci.induct) auto

lemma starts_ci_nth: "starts_ci pat s \<Longrightarrow> i < length pat \<Longrightarrow> ceq (pat ! i) (s ! i)"
proof (induction pat s arbitrary: i rule: starts_ci.induct)
  case (3 p ps c cs)
  then show ?case by (cases i) auto
qed auto

lemma starts_ci_within:
  "starts_ci pat (u @ v) \<Longrightarrow> length pat \<le> length u \<Longrightarrow> starts_ci pat u"
proof (induction pat u rule: starts_ci.induct)
  case (3 p ps c cs)
  then show ?case by auto
qed auto

text \<open>A match cannot run from \<open>u\<close> into \<open>v\<close> when \<open>v\<close> begins with a character that the
  pattern has only in front.\<close>

lemma starts_ci_no_straddle:
  assumes "starts_ci pat (u @ v)" and "u \<noteq> []" and "v \<noteq> []" and "no_inner pat (hd v)"
  shows "length pat \<le> length u"
proof (rule ccontr)
  assume "\<not> length pat \<le> length u"
  then have lt: "length u < length pat" by simp
  from starts_ci_nth [OF assms(1) lt] have "ceq (pat ! length u) (hd v)"
    using assms(3) by (simp add: nth_append hd_conv_nth)
  moreover from lt assms(2) have "pat ! length u \<in> set (tl pat)"
    by (cases pat; cases u) auto
  ultimately show False using assms(4) by (auto simp: no_inner_def list_all_iff)
qed

lemma starts_ci_split:
  assumes "starts_ci pat (u @ v)" and "u \<noteq> []" and "v \<noteq> []" and "no_inner pat (hd v)"
  shows "starts_ci pat u"
  using assms starts_ci_within starts_ci_no_straddle by blast

lemma contains_ci_appendI1: "contains_ci pat x \<Longrightarrow> contains_ci pat (x @ y)"
  by (induction x) (auto simp: starts_ci_append dest: starts_ci_append [where y = y])

lemma contains_ci_appendI2: "contains_ci pat y \<Longrightarrow> contains_ci pat (x @ y)"
  by (induction x) auto

lemma contains_ci_split:
  assumes "contains_ci pat (x @ v)" and "v \<noteq> []" and "no_inner pat (hd v)"
  shows "contains_ci pat x \<or> contains_ci pat v"
  using assms
proof (induction x)
  case Nil
  then show ?case by simp
next
  case (Cons a x)
  show ?case
  proof (cases "starts_ci pat ((a # x) @ v)")
    case True
    then have "starts_ci pat (a # x)"
      using Cons.prems by (intro starts_ci_split [of pat "a # x" v]) auto
    then show ?thesis by simp
  next
    case False
    with Cons show ?thesis by auto
  qed
qed

lemma remove_from_id: "\<not> contains_ci pat s \<Longrightarrow> remove_from pat s = s"
  by (induction s) auto

lemma remove_from_prefix: "\<exists>r. s = remove_from pat s @ r"
  by (induction s) auto

lemma remove_from_clean: "pat \<noteq> [] \<Longrightarrow> \<not> contains_ci pat (remove_from pat s)"
proof (induction s)
  case Nil
  then show ?case by simp
next
  case (Cons c s)
  show ?case
  proof (cases "starts_ci pat (c # s)")
    case True
    then show ?thesis using Cons.prems by simp
  next
    case False
    obtain r where r: "s = remove_from pat s @ r" using remove_from_prefix by blast
    have "\<not> starts_ci pat (c # remove_from pat s)"
    proof
      assume "starts_ci pat (c # remove_from pat s)"
      then have "starts_ci pat ((c # remove_from pat s) @ r)" by (rule starts_ci_append)
      with r False show False by simp
    qed
    with False Cons show ?thesis by simp
  qed
qed

lemma contains_ci_length: "contains_ci pat x \<Longrightarrow> length pat \<le> length x"
  by (induction x) (auto dest: starts_ci_length)

lemma remove_from_append:
  "contains_ci pat x \<Longrightarrow> pat \<noteq> [] \<Longrightarrow> remove_from pat (x @ y) = remove_from pat x"
proof (induction x)
  case Nil
  then show ?case by simp
next
  case (Cons a x)
  show ?case
  proof (cases "starts_ci pat (a # x)")
    case True
    then show ?thesis using starts_ci_append [of pat "a # x" y] by simp
  next
    case False
    with Cons.prems have c: "contains_ci pat x" by simp
    have "\<not> starts_ci pat ((a # x) @ y)"
    proof
      assume "starts_ci pat ((a # x) @ y)"
      moreover from c have "length pat \<le> length (a # x)"
        using contains_ci_length [of pat x] by simp
      ultimately have "starts_ci pat (a # x)" by (rule starts_ci_within)
      with False show False by simp
    qed
    with False Cons.IH [OF c Cons.prems(2)] show ?thesis by simp
  qed
qed

lemma trim_decompose: "\<exists>p q. s = p @ trim s @ q"
proof -
  let ?u = "dropWhile isWhiteSpace s"
  have "s = takeWhile isWhiteSpace s @ ?u" by simp
  moreover have "?u = trim s @ rev (takeWhile isWhiteSpace (rev ?u))"
  proof -
    have "rev ?u = takeWhile isWhiteSpace (rev ?u) @ dropWhile isWhiteSpace (rev ?u)" by simp
    then have "rev (rev ?u) =
        rev (takeWhile isWhiteSpace (rev ?u) @ dropWhile isWhiteSpace (rev ?u))"
      by simp
    then show ?thesis unfolding trim_def by (simp only: rev_append rev_rev_ident)
  qed
  ultimately show ?thesis by metis
qed

lemma contains_ci_trim: "contains_ci pat (trim s) \<Longrightarrow> contains_ci pat s"
proof -
  assume a: "contains_ci pat (trim s)"
  obtain p q where s: "s = p @ trim s @ q" using trim_decompose by blast
  from a have "contains_ci pat (p @ trim s @ q)"
    by (intro contains_ci_appendI2 contains_ci_appendI1)
  with s show ?thesis by simp
qed

lemma trim_Nil [simp]: "trim [] = []"
  by (simp add: trim_def)

lemma trim_ends:
  "trim s = [] \<or> (\<not> isWhiteSpace (hd (trim s)) \<and> \<not> isWhiteSpace (last (trim s)))"
proof (cases "trim s = []")
  case True
  then show ?thesis by simp
next
  case False
  let ?u = "dropWhile isWhiteSpace s"
  let ?w = "dropWhile isWhiteSpace (rev ?u)"
  from False have w: "?w \<noteq> []" by (simp add: trim_def)
  then have "\<not> isWhiteSpace (hd ?w)" by (rule hd_dropWhile)
  then have l: "\<not> isWhiteSpace (last (trim s))" using w by (simp add: trim_def last_rev)
  have u: "?u \<noteq> []"
  proof
    assume "?u = []"
    with w show False by (metis dropWhile.simps(1) rev.simps(1))
  qed
  then have hu: "\<not> isWhiteSpace (hd ?u)" by (rule hd_dropWhile)
  have "?u = rev (takeWhile isWhiteSpace (rev ?u) @ ?w)" by simp
  then have "?u = trim s @ rev (takeWhile isWhiteSpace (rev ?u))"
    unfolding trim_def by (simp only: rev_append)
  then have "hd ?u = hd (trim s)" using False by (metis hd_append2)
  with hu l show ?thesis by simp
qed

lemma trim_unique:
  assumes "\<forall>x\<in>set p. isWhiteSpace x" and "\<forall>x\<in>set q. isWhiteSpace x"
    and "t = [] \<or> (\<not> isWhiteSpace (hd t) \<and> \<not> isWhiteSpace (last t))"
  shows "trim (p @ t @ q) = t"
proof (cases "t = []")
  case True
  with assms have "\<forall>x\<in>set (p @ t @ q). isWhiteSpace x" by auto
  then have "dropWhile isWhiteSpace (p @ t @ q) = []"
    by (simp only: dropWhile_eq_Nil_conv)
  then have "trim (p @ t @ q) = []"
    unfolding trim_def by (simp only: rev.simps(1) dropWhile.simps(1))
  then show ?thesis using True by simp
next
  case False
  with assms(3) have h: "\<not> isWhiteSpace (hd t)" and l: "\<not> isWhiteSpace (last t)" by auto
  from False h have "dropWhile isWhiteSpace (t @ q) = t @ q"
    by (cases t) auto
  with assms(1) have 1: "dropWhile isWhiteSpace (p @ t @ q) = t @ q"
    by (simp add: dropWhile_append)
  from False l have "dropWhile isWhiteSpace (rev t) = rev t"
    by (cases "rev t") (auto simp: hd_rev [symmetric] simp del: hd_rev)
  with assms(2) have "dropWhile isWhiteSpace (rev q @ rev t) = rev t"
    by (simp add: dropWhile_append)
  with 1 show ?thesis by (simp add: trim_def)
qed

lemma trim_idem [simp]: "trim (trim s) = trim s"
  using trim_unique [of "[]" "[]" "trim s"] trim_ends [of s] by simp

lemma dropWhile_wrap:
  assumes "t \<noteq> []" and "\<not> P (hd t)"
  shows "dropWhile P (x @ t @ y) = dropWhile P x @ t @ y"
proof (cases "\<forall>c\<in>set x. P c")
  case True
  then have "dropWhile P x = []" by (simp only: dropWhile_eq_Nil_conv)
  moreover from assms have "dropWhile P (t @ y) = t @ y" by (cases t) auto
  ultimately show ?thesis using True by (simp add: dropWhile_append)
next
  case False
  then show ?thesis by (auto simp: dropWhile_append1)
qed

lemma trim_wrap:
  assumes "t \<noteq> []" and "\<not> isWhiteSpace (hd t)" and "\<not> isWhiteSpace (last t)"
  shows "trim (x @ t @ y) =
    dropWhile isWhiteSpace x @ t @ rev (dropWhile isWhiteSpace (rev y))"
proof -
  have 1: "dropWhile isWhiteSpace (x @ t @ y) = dropWhile isWhiteSpace x @ t @ y"
    using assms(1,2) by (rule dropWhile_wrap)
  have "rev t \<noteq> []" "\<not> isWhiteSpace (hd (rev t))"
    using assms by (simp_all add: hd_rev)
  then have "dropWhile isWhiteSpace (rev y @ rev t @ rev (dropWhile isWhiteSpace x)) =
      dropWhile isWhiteSpace (rev y) @ rev t @ rev (dropWhile isWhiteSpace x)"
    by (rule dropWhile_wrap)
  with 1 show ?thesis by (simp add: trim_def)
qed

lemma no_inner_lt:
  "no_inner think_open (CHR ''<'')" "no_inner think_close (CHR ''<'')"
  "no_inner esc_open (CHR ''<'')" "no_inner esc_close (CHR ''<'')"
  by (simp_all add: no_inner_def ceq_def canonicalize_def think_open_def think_close_def
      esc_open_def esc_close_def)

lemma no_inner_ceq: "ceq a b \<Longrightarrow> no_inner pat a \<Longrightarrow> no_inner pat b"
  by (auto simp: no_inner_def list_all_iff ceq_def)

lemma drop_append_le: "n \<le> length xs \<Longrightarrow> drop n (xs @ ys) = drop n xs @ ys"
  by simp

lemma contains_ci_drop: "contains_ci pat (drop n s) \<Longrightarrow> contains_ci pat s"
  using contains_ci_appendI2 [of pat "drop n s" "take n s"] by simp

lemma after_first_ci_None: "(after_first_ci pat s = None) = (\<not> contains_ci pat s)"
  by (induction s) auto

lemma after_first_ci_append:
  "after_first_ci pat w = Some r \<Longrightarrow> pat \<noteq> [] \<Longrightarrow> after_first_ci pat (w @ v) = Some (r @ v)"
proof (induction w)
  case Nil
  then show ?case by simp
next
  case (Cons c w)
  show ?case
  proof (cases "starts_ci pat (c # w)")
    case True
    then have "length pat \<le> length (c # w)" by (rule starts_ci_length)
    then have "drop (length pat) ((c # w) @ v) = drop (length pat) (c # w) @ v"
      by (rule drop_append_le)
    with True Cons.prems show ?thesis
      using starts_ci_append [of pat "c # w" v] by auto
  next
    case False
    with Cons.prems have r: "after_first_ci pat w = Some r" by simp
    then have "contains_ci pat w" using after_first_ci_None [of pat w] by auto
    then have "length pat \<le> length (c # w)" using contains_ci_length [of pat w] by simp
    with False have "\<not> starts_ci pat ((c # w) @ v)" using starts_ci_within by blast
    with Cons.IH [OF r Cons.prems(2)] show ?thesis by simp
  qed
qed

lemma after_first_ci_skip:
  assumes "\<not> contains_ci pat A" and "v \<noteq> []" and "no_inner pat (hd v)"
    and "starts_ci pat v"
  shows "after_first_ci pat (A @ v) = Some (drop (length pat) v)"
  using assms(1)
proof (induction A)
  case Nil
  with assms show ?case by (cases v) auto
next
  case (Cons a A)
  have "\<not> starts_ci pat ((a # A) @ v)"
  proof
    assume "starts_ci pat ((a # A) @ v)"
    then have "starts_ci pat (a # A)"
      using assms(2,3) by (intro starts_ci_split [of pat "a # A" v]) auto
    with Cons.prems show False by simp
  qed
  with Cons show ?case by simp
qed

lemma remove_pairs_Cons:
  "op \<noteq> [] \<Longrightarrow> remove_pairs op cl (c # cs) =
     (if starts_ci op (c # cs)
      then (case after_first_ci cl (drop (length op) (c # cs)) of
              Some rest \<Rightarrow> remove_pairs op cl rest
            | None \<Rightarrow> c # remove_pairs op cl cs)
      else c # remove_pairs op cl cs)"
  by (cases op) (auto split: option.splits)

lemma remove_pairs_no_open: "\<not> contains_ci op s \<Longrightarrow> remove_pairs op cl s = s"
proof (induction s)
  case Nil
  then show ?case by simp
next
  case (Cons c s)
  then have "op \<noteq> []" by auto
  with Cons show ?case by (simp add: remove_pairs_Cons)
qed

lemma remove_pairs_no_close: "\<not> contains_ci cl s \<Longrightarrow> remove_pairs op cl s = s"
proof (induction s)
  case Nil
  then show ?case by simp
next
  case (Cons c s)
  show ?case
  proof (cases "op = []")
    case True
    then show ?thesis by simp
  next
    case False
    have "\<not> contains_ci cl (drop (length op) (c # s))"
      using Cons.prems contains_ci_drop by blast
    then have "after_first_ci cl (drop (length op) (c # s)) = None"
      by (simp add: after_first_ci_None)
    with False Cons show ?thesis by (simp add: remove_pairs_Cons)
  qed
qed

lemma remove_pairs_keep:
  assumes "W \<noteq> []" and "no_inner op (hd W)" and "op \<noteq> []"
  shows "\<not> contains_ci op P \<Longrightarrow> remove_pairs op cl (P @ W) = P @ remove_pairs op cl W"
proof (induction P)
  case Nil
  then show ?case by simp
next
  case (Cons a P)
  have "\<not> starts_ci op ((a # P) @ W)"
  proof
    assume "starts_ci op ((a # P) @ W)"
    then have "starts_ci op (a # P)"
      using assms(1,2) by (intro starts_ci_split [of op "a # P" W]) auto
    with Cons.prems show False by simp
  qed
  with Cons assms(3) show ?case by (simp add: remove_pairs_Cons)
qed

lemma remove_pairs_pair:
  assumes "eq_ci t op" and "eq_ci c cl" and "op \<noteq> []" and "cl \<noteq> []"
    and "\<not> contains_ci cl A" and "no_inner cl (hd c)"
  shows "remove_pairs op cl (t @ A @ c @ B) = remove_pairs op cl B"
proof -
  from assms(1,3) obtain x xs where t: "t = x # xs" by (cases t) (auto simp: eq_ci_def)
  from assms(2,4) have c: "c \<noteq> []" by (auto simp: eq_ci_def)
  have s: "starts_ci op (t @ A @ c @ B)"
    using assms(1) by (auto simp: eq_ci_def intro: starts_ci_append)
  have d: "drop (length op) (t @ A @ c @ B) = A @ c @ B"
    using assms(1) by (simp add: eq_ci_def)
  have "starts_ci cl (c @ B)"
    using assms(2) by (auto simp: eq_ci_def intro: starts_ci_append)
  then have "after_first_ci cl (A @ c @ B) = Some (drop (length cl) (c @ B))"
    using assms(5,6) c by (intro after_first_ci_skip) auto
  then have "after_first_ci cl (A @ c @ B) = Some B"
    using assms(2) by (simp add: eq_ci_def)
  with s d show ?thesis
    using assms(3) remove_pairs_Cons [of op cl x "xs @ A @ c @ B"] by (simp add: t)
qed

lemma remove_pairs_tail:
  assumes "V \<noteq> []" and "no_inner op (hd V)" and "no_inner cl (hd V)"
    and "\<not> contains_ci cl V" and "op \<noteq> []" and "cl \<noteq> []"
  shows "remove_pairs op cl (P @ V) = remove_pairs op cl P @ V"
proof (induction "length P" arbitrary: P rule: less_induct)
  case less
  show ?case
  proof (cases P)
    case Nil
    then show ?thesis using assms(4) by (simp add: remove_pairs_no_close)
  next
    case (Cons c cs)
    have tl: "remove_pairs op cl (cs @ V) = remove_pairs op cl cs @ V"
      using less [of cs] Cons by simp
    show ?thesis
    proof (cases "starts_ci op (c # cs)")
      case True
      then have s: "starts_ci op ((c # cs) @ V)" by (rule starts_ci_append)
      from True have len: "length op \<le> length (c # cs)" by (rule starts_ci_length)
      let ?w = "drop (length op) (c # cs)"
      from len have d: "drop (length op) ((c # cs) @ V) = ?w @ V" by (rule drop_append_le)
      show ?thesis
      proof (cases "after_first_ci cl ?w")
        case None
        then have "\<not> contains_ci cl ?w" by (simp add: after_first_ci_None)
        then have "\<not> contains_ci cl (?w @ V)"
          using contains_ci_split [of cl ?w V] assms(1,3,4) by blast
        then have "after_first_ci cl (?w @ V) = None" by (simp add: after_first_ci_None)
        with None True s d tl assms(5) show ?thesis
          using remove_pairs_Cons [of op cl c cs] remove_pairs_Cons [of op cl c "cs @ V"]
          by (simp add: Cons)
      next
        case (Some r)
        then have "after_first_ci cl (?w @ V) = Some (r @ V)"
          using assms(6) by (rule after_first_ci_append)
        moreover have "length r < length P"
          using after_first_ci_length [OF Some] assms(5) Cons by (cases op) auto
        then have "remove_pairs op cl (r @ V) = remove_pairs op cl r @ V"
          by (rule less)
        ultimately show ?thesis
          using Some True s d assms(5)
            remove_pairs_Cons [of op cl c cs] remove_pairs_Cons [of op cl c "cs @ V"]
          by (simp add: Cons)
      qed
    next
      case False
      have "\<not> starts_ci op ((c # cs) @ V)"
      proof
        assume "starts_ci op ((c # cs) @ V)"
        then have "starts_ci op (c # cs)"
          using assms(1,2) by (intro starts_ci_split [of op "c # cs" V]) auto
        with False show False by simp
      qed
      with False tl assms(5) show ?thesis
        using remove_pairs_Cons [of op cl c cs] remove_pairs_Cons [of op cl c "cs @ V"]
        by (simp add: Cons)
    qed
  qed
qed

lemma eq_ci_hd:
  assumes "eq_ci t pat" and "pat \<noteq> []"
  shows "t \<noteq> []" and "ceq (hd pat) (hd t)"
  using assms by (cases pat; cases t; simp add: eq_ci_def)+

lemma eq_ci_no_inner:
  assumes "eq_ci t pat" and "pat \<noteq> []" and "no_inner q (hd pat)"
  shows "no_inner q (hd t)"
  using eq_ci_hd(2) [OF assms(1,2)] assms(3) by (rule no_inner_ceq)

lemma tag_nonempty [simp]:
  "think_open \<noteq> []" "think_close \<noteq> []" "esc_open \<noteq> []" "esc_close \<noteq> []"
  by (simp_all add: think_open_def think_close_def esc_open_def esc_close_def)

lemma tag_hd [simp]: "hd think_open = CHR ''<''" "hd think_close = CHR ''<''"
  by (simp_all add: think_open_def think_close_def)

text \<open>On a text with no start tag, stage 1 only trims.\<close>

lemma passes_clean:
  assumes "\<not> contains_ci think_open y" and "\<not> contains_ci esc_open y"
  shows "trim (remove_from esc_open (trim (remove_from think_open
           (trim (remove_pairs esc_open esc_close (trim y)))))) = trim y"
proof -
  from assms have t: "\<not> contains_ci think_open (trim y)" "\<not> contains_ci esc_open (trim y)"
    using contains_ci_trim by blast+
  then show ?thesis
    by (simp add: remove_pairs_no_open remove_from_id)
qed

lemma stripThink_pair:
  assumes "eq_ci t think_open" and "eq_ci c think_close"
    and "\<not> contains_ci think_close A"
    and "\<not> contains_ci think_open (P @ B)" and "\<not> contains_ci esc_open (P @ B)"
  shows "stripThink (P @ t @ A @ c @ B) = trim (P @ B)"
proof -
  from assms(4) have nP: "\<not> contains_ci think_open P" and nB: "\<not> contains_ci think_open B"
    using contains_ci_appendI1 contains_ci_appendI2 by blast+
  have t: "t \<noteq> []" "no_inner think_open (hd t)"
    using eq_ci_hd(1) [OF assms(1)] eq_ci_no_inner [OF assms(1), of think_open]
    by (simp_all add: no_inner_lt)
  have c: "no_inner think_close (hd c)"
    using eq_ci_no_inner [OF assms(2), of think_close] by (simp add: no_inner_lt)
  have "remove_pairs think_open think_close (P @ (t @ A @ c @ B)) =
      P @ remove_pairs think_open think_close (t @ A @ c @ B)"
    using t nP by (intro remove_pairs_keep) auto
  also have "remove_pairs think_open think_close (t @ A @ c @ B) =
      remove_pairs think_open think_close B"
    using assms(1,2,3) c by (intro remove_pairs_pair) auto
  also have "\<dots> = B" using nB by (rule remove_pairs_no_open)
  finally have 1: "remove_pairs think_open think_close (P @ t @ A @ c @ B) = P @ B" .
  show ?thesis
    unfolding stripThink_def Let_def 1 using assms(4,5) by (rule passes_clean)
qed

lemma trim_end_prefix: "\<exists>r. s = rev (dropWhile isWhiteSpace (rev s)) @ r"
proof -
  have "rev s = takeWhile isWhiteSpace (rev s) @ dropWhile isWhiteSpace (rev s)" by simp
  then have "rev (rev s) =
      rev (takeWhile isWhiteSpace (rev s) @ dropWhile isWhiteSpace (rev s))"
    by simp
  then have "s = rev (dropWhile isWhiteSpace (rev s)) @ rev (takeWhile isWhiteSpace (rev s))"
    by (simp only: rev_append rev_rev_ident)
  then show ?thesis ..
qed

lemma contains_ci_trim_end:
  "contains_ci pat (rev (dropWhile isWhiteSpace (rev s))) \<Longrightarrow> contains_ci pat s"
  using trim_end_prefix [of s] contains_ci_appendI1 by metis

lemma trim_think_open:
  "trim (x @ think_open @ y) =
     dropWhile isWhiteSpace x @ think_open @ rev (dropWhile isWhiteSpace (rev y))"
  by (rule trim_wrap) (simp_all add: think_open_def isWhiteSpace_def)

lemma think_open_then:
  "contains_ci think_close (think_open @ C) = contains_ci think_close C"
  "contains_ci esc_close (think_open @ C) = contains_ci esc_close C"
  by (simp_all add: think_open_def think_close_def esc_close_def ceq_def canonicalize_def)

text \<open>What stage 1 makes of a text that ends in a start tag and a tail with no end tag:
  the tail plays no part.\<close>

lemma stripThink_open_tail_eq:
  assumes "\<not> contains_ci think_close C" and "\<not> contains_ci esc_close C"
  shows "stripThink (P @ think_open @ C) =
    trim (remove_from esc_open (trim (remove_from think_open
      (dropWhile isWhiteSpace (remove_pairs esc_open esc_close
         (dropWhile isWhiteSpace (remove_pairs think_open think_close P))) @ think_open))))"
proof -
  let ?T = think_open
  let ?dw = "dropWhile isWhiteSpace"
  let ?C' = "rev (?dw (rev C))"
  let ?P1 = "?dw (remove_pairs think_open think_close P)"
  let ?P2 = "?dw (remove_pairs esc_open esc_close ?P1)"
  have C': "\<not> contains_ci think_close ?C'" "\<not> contains_ci esc_close ?C'"
    using assms contains_ci_trim_end by blast+
  have "remove_pairs think_open think_close (P @ (?T @ C)) =
      remove_pairs think_open think_close P @ ?T @ C"
    using assms(1) by (intro remove_pairs_tail) (simp_all add: no_inner_lt think_open_then)
  then have 1: "trim (remove_pairs think_open think_close (P @ ?T @ C)) = ?P1 @ ?T @ ?C'"
    by (simp add: trim_think_open)
  have "remove_pairs esc_open esc_close (?P1 @ (?T @ ?C')) =
      remove_pairs esc_open esc_close ?P1 @ ?T @ ?C'"
    using C'(2) by (intro remove_pairs_tail) (simp_all add: no_inner_lt think_open_then)
  then have 2: "trim (remove_pairs esc_open esc_close (?P1 @ ?T @ ?C')) =
      ?P2 @ ?T @ rev (?dw (rev ?C'))"
    by (simp add: trim_think_open)
  have "contains_ci think_open (?P2 @ ?T)"
    by (rule contains_ci_appendI2) (simp add: think_open_def)
  then have 3: "remove_from think_open ((?P2 @ ?T) @ rev (?dw (rev ?C'))) =
      remove_from think_open (?P2 @ ?T)"
    by (rule remove_from_append) simp
  show ?thesis
    unfolding stripThink_def Let_def 1 2 using 3 by simp
qed

lemma stripThink_open_tail:
  assumes "\<not> contains_ci think_close C" and "\<not> contains_ci esc_close C"
  shows "stripThink (P @ think_open @ C) = stripThink (P @ think_open)"
  using stripThink_open_tail_eq [OF assms, of P] stripThink_open_tail_eq [of "[]" P]
  by (simp add: think_close_def esc_close_def)

lemma unbordered_tags:
  "unbordered think_open" "unbordered think_close" "unbordered esc_open" "unbordered esc_close"
  by (simp_all add: unbordered_def think_open_def think_close_def esc_open_def esc_close_def
      upt_rec ceq_def canonicalize_def)

lemma starts_ci_drop:
  "starts_ci pat (u @ v) \<Longrightarrow> length u \<le> length pat \<Longrightarrow> starts_ci (drop (length u) pat) v"
proof (induction pat "u @ v" arbitrary: u rule: starts_ci.induct)
  case (3 p ps c cs)
  then show ?case by (cases u) auto
qed auto

lemma starts_ci_trans_pat:
  "starts_ci q v \<Longrightarrow> starts_ci pat v \<Longrightarrow> length q \<le> length pat \<Longrightarrow> starts_ci q pat"
proof (induction q v arbitrary: pat rule: starts_ci.induct)
  case (3 p ps c cs)
  then show ?case by (cases pat) (auto simp: ceq_def)
qed auto

lemma starts_ci_unbordered:
  assumes "starts_ci pat (u @ v)" and "starts_ci pat v" and "u \<noteq> []" and "unbordered pat"
  shows "starts_ci pat u"
proof (cases "length pat \<le> length u")
  case True
  with assms(1) show ?thesis by (rule starts_ci_within)
next
  case False
  then have lt: "length u < length pat" by simp
  then have "starts_ci (drop (length u) pat) v" using assms(1) by (intro starts_ci_drop) auto
  then have "starts_ci (drop (length u) pat) pat"
    using assms(2) by (rule starts_ci_trans_pat) simp
  moreover from lt assms(3) have "length u \<in> set [1..<length pat]" by (cases u) auto
  ultimately show ?thesis using assms(4) by (auto simp: unbordered_def list_all_iff)
qed

lemma after_first_ci_skip_same:
  assumes "starts_ci pat v" and "unbordered pat" and "pat \<noteq> []"
  shows "\<not> contains_ci pat A \<Longrightarrow> after_first_ci pat (A @ v) = Some (drop (length pat) v)"
proof (induction A)
  case Nil
  with assms show ?case by (cases v) auto
next
  case (Cons a A)
  have "\<not> starts_ci pat ((a # A) @ v)"
  proof
    assume "starts_ci pat ((a # A) @ v)"
    then have "starts_ci pat (a # A)"
      using assms(1,2) by (intro starts_ci_unbordered [of pat "a # A" v]) auto
    with Cons.prems show False by simp
  qed
  with Cons show ?case by simp
qed

lemma remove_pairs_keep_same:
  assumes "starts_ci op W" and "unbordered op" and "op \<noteq> []"
  shows "\<not> contains_ci op P \<Longrightarrow> remove_pairs op cl (P @ W) = P @ remove_pairs op cl W"
proof (induction P)
  case Nil
  then show ?case by simp
next
  case (Cons a P)
  have "\<not> starts_ci op ((a # P) @ W)"
  proof
    assume "starts_ci op ((a # P) @ W)"
    then have "starts_ci op (a # P)"
      using assms(1,2) by (intro starts_ci_unbordered [of op "a # P" W]) auto
    with Cons.prems show False by simp
  qed
  with Cons assms(3) show ?case by (simp add: remove_pairs_Cons)
qed

lemma remove_pairs_pair_same:
  assumes "eq_ci t op" and "eq_ci c cl" and "op \<noteq> []" and "cl \<noteq> []"
    and "\<not> contains_ci cl A" and "unbordered cl"
  shows "remove_pairs op cl (t @ A @ c @ B) = remove_pairs op cl B"
proof -
  from assms(1,3) obtain x xs where t: "t = x # xs" by (cases t) (auto simp: eq_ci_def)
  have s: "starts_ci op (t @ A @ c @ B)"
    using assms(1) by (auto simp: eq_ci_def intro: starts_ci_append)
  have d: "drop (length op) (t @ A @ c @ B) = A @ c @ B"
    using assms(1) by (simp add: eq_ci_def)
  have "starts_ci cl (c @ B)"
    using assms(2) by (auto simp: eq_ci_def intro: starts_ci_append)
  then have "after_first_ci cl (A @ c @ B) = Some (drop (length cl) (c @ B))"
    using assms(4,5,6) by (intro after_first_ci_skip_same) auto
  then have "after_first_ci cl (A @ c @ B) = Some B"
    using assms(2) by (simp add: eq_ci_def)
  with s d show ?thesis
    using assms(3) remove_pairs_Cons [of op cl x "xs @ A @ c @ B"] by (simp add: t)
qed

lemma isWhiteSpace_canonicalize: "isWhiteSpace (canonicalize c) = isWhiteSpace c"
  by (simp add: canonicalize_def isWhiteSpace_def)

lemma ceq_isWhiteSpace: "ceq a b \<Longrightarrow> isWhiteSpace a = isWhiteSpace b"
  using isWhiteSpace_canonicalize [of a] isWhiteSpace_canonicalize [of b] by (simp add: ceq_def)

lemma eq_ci_last:
  assumes "eq_ci t pat" and "pat \<noteq> []"
  shows "ceq (last pat) (last t)"
proof -
  from assms have l: "length t = length pat" and s: "starts_ci pat t" and t: "t \<noteq> []"
    by (auto simp: eq_ci_def)
  from assms(2) have "length pat - 1 < length pat" by (cases pat) auto
  with s have "ceq (pat ! (length pat - 1)) (t ! (length pat - 1))" by (rule starts_ci_nth)
  then show ?thesis using assms(2) t l by (simp add: last_conv_nth)
qed

lemma trim_decompose_ws:
  "\<exists>p q. s = p @ trim s @ q \<and> (\<forall>x\<in>set p. isWhiteSpace x) \<and> (\<forall>x\<in>set q. isWhiteSpace x)"
proof -
  let ?u = "dropWhile isWhiteSpace s"
  let ?p = "takeWhile isWhiteSpace s"
  let ?q = "rev (takeWhile isWhiteSpace (rev ?u))"
  have "s = ?p @ ?u" by simp
  moreover have "?u = trim s @ ?q"
  proof -
    have "rev ?u = takeWhile isWhiteSpace (rev ?u) @ dropWhile isWhiteSpace (rev ?u)" by simp
    then have "rev (rev ?u) =
        rev (takeWhile isWhiteSpace (rev ?u) @ dropWhile isWhiteSpace (rev ?u))"
      by simp
    then show ?thesis unfolding trim_def by (simp only: rev_append rev_rev_ident)
  qed
  ultimately have "s = ?p @ trim s @ ?q" by simp
  moreover have "\<forall>x\<in>set ?p. isWhiteSpace x" by (auto dest: set_takeWhileD)
  moreover have "\<forall>x\<in>set ?q. isWhiteSpace x" by (auto dest: set_takeWhileD)
  ultimately show ?thesis by blast
qed

lemma trim_strip:
  assumes "\<forall>x\<in>set p. isWhiteSpace x" and "\<forall>x\<in>set q. isWhiteSpace x"
  shows "trim (p @ m @ q) = trim m"
proof -
  obtain p' q' where m: "m = p' @ trim m @ q'"
    and p': "\<forall>x\<in>set p'. isWhiteSpace x" and q': "\<forall>x\<in>set q'. isWhiteSpace x"
    using trim_decompose_ws by blast
  have e: "(p @ p') @ trim m @ (q' @ q) = p @ m @ q"
    using m by (metis append.assoc)
  have "trim (p @ m @ q) = trim ((p @ p') @ trim m @ (q' @ q))"
    by (simp only: e)
  also have "\<dots> = trim m"
    using assms p' q' trim_ends [of m] by (intro trim_unique) auto
  finally show ?thesis .
qed

lemma trim_inner:
  "trim (dropWhile isWhiteSpace P @ rev (dropWhile isWhiteSpace (rev B))) = trim (P @ B)"
proof -
  let ?p = "takeWhile isWhiteSpace P"
  let ?q = "rev (takeWhile isWhiteSpace (rev B))"
  let ?m = "dropWhile isWhiteSpace P @ rev (dropWhile isWhiteSpace (rev B))"
  have "rev B = takeWhile isWhiteSpace (rev B) @ dropWhile isWhiteSpace (rev B)" by simp
  then have "rev (rev B) =
      rev (takeWhile isWhiteSpace (rev B) @ dropWhile isWhiteSpace (rev B))" by simp
  then have B: "B = rev (dropWhile isWhiteSpace (rev B)) @ ?q"
    by (simp only: rev_append rev_rev_ident)
  have "P @ B = ?p @ ?m @ ?q"
    using B by (metis append.assoc takeWhile_dropWhile_id)
  moreover have "trim (?p @ ?m @ ?q) = trim ?m"
    by (rule trim_strip) (auto dest: set_takeWhileD)
  ultimately show ?thesis by simp
qed

lemma contains_ci_skip:
  assumes "pat \<noteq> []"
  shows "list_all (\<lambda>x. \<not> ceq (hd pat) x) t \<Longrightarrow> contains_ci pat (t @ X) = contains_ci pat X"
proof (induction t)
  case Nil
  then show ?case by simp
next
  case (Cons a t)
  then have "\<not> starts_ci pat (a # t @ X)" using assms by (cases pat) auto
  with Cons show ?case by simp
qed

lemma eq_ci_list_all:
  assumes "eq_ci t pat" and "list_all (\<lambda>x. \<not> ceq a x) pat"
  shows "list_all (\<lambda>x. \<not> ceq a x) t"
proof -
  have "starts_ci pat t \<Longrightarrow> length t = length pat \<Longrightarrow> list_all (\<lambda>x. \<not> ceq a x) pat \<Longrightarrow>
      list_all (\<lambda>x. \<not> ceq a x) t"
  proof (induction pat t rule: starts_ci.induct)
    case (3 p ps c cs)
    then show ?case by (auto simp: ceq_def)
  qed auto
  with assms show ?thesis by (simp add: eq_ci_def)
qed

lemma contains_ci_dropWhile: "contains_ci pat (dropWhile Q s) \<Longrightarrow> contains_ci pat s"
  using contains_ci_appendI2 [of pat "dropWhile Q s" "takeWhile Q s"] by simp

lemma esc_facts:
  "hd esc_open = CHR ''&''" "hd esc_close = CHR ''&''"
  "last esc_close = CHR '';''"
  "no_inner think_open (CHR ''&'')"
  "list_all (\<lambda>x. \<not> ceq (hd think_open) x) esc_open"
  "list_all (\<lambda>x. \<not> ceq (hd think_open) x) esc_close"
  "\<not> isWhiteSpace (CHR ''&'')" "\<not> isWhiteSpace (CHR '';'')"
  by (simp_all add: think_open_def esc_open_def esc_close_def no_inner_def ceq_def
      canonicalize_def isWhiteSpace_def)

lemma stripThink_escaped_pair:
  assumes "eq_ci t esc_open" and "eq_ci c esc_close"
    and "\<not> contains_ci esc_close A" and "\<not> contains_ci think_open A"
    and "\<not> contains_ci think_open (P @ B)" and "\<not> contains_ci esc_open (P @ B)"
  shows "stripThink (P @ t @ A @ c @ B) = trim (P @ B)"
proof -
  let ?dw = "dropWhile isWhiteSpace"
  let ?B' = "rev (?dw (rev B))"
  from assms(5) have rP: "\<not> contains_ci think_open P" and rB: "\<not> contains_ci think_open B"
    using contains_ci_appendI1 contains_ci_appendI2 by blast+
  from assms(6) have eP: "\<not> contains_ci esc_open P" and eB: "\<not> contains_ci esc_open B"
    using contains_ci_appendI1 contains_ci_appendI2 by blast+
  have t: "t \<noteq> []" "ceq (CHR ''&'') (hd t)"
    using eq_ci_hd [OF assms(1)] by (simp_all add: esc_facts)
  have c: "c \<noteq> []" "ceq (CHR ''&'') (hd c)" "ceq (CHR '';'') (last c)"
    using eq_ci_hd [OF assms(2)] eq_ci_last [OF assms(2)] by (simp_all add: esc_facts)
  have skip_t: "contains_ci think_open (t @ X) = contains_ci think_open X" for X
    using eq_ci_list_all [OF assms(1) esc_facts(5)] by (intro contains_ci_skip) auto
  have skip_c: "contains_ci think_open (c @ X) = contains_ci think_open X" for X
    using eq_ci_list_all [OF assms(2) esc_facts(6)] by (intro contains_ci_skip) auto
  have raw: "\<not> contains_ci think_open (P @ t @ A @ c @ B)"
  proof
    assume "contains_ci think_open (P @ t @ A @ c @ B)"
    moreover have "no_inner think_open (hd (t @ A @ c @ B))"
      using t no_inner_ceq [OF t(2) esc_facts(4)] by simp
    ultimately have "contains_ci think_open P \<or> contains_ci think_open (t @ A @ c @ B)"
      using t(1) by (intro contains_ci_split) auto
    with rP have "contains_ci think_open (A @ c @ B)" by (simp add: skip_t)
    moreover have "no_inner think_open (hd (c @ B))"
      using c no_inner_ceq [OF c(2) esc_facts(4)] by simp
    ultimately have "contains_ci think_open A \<or> contains_ci think_open (c @ B)"
      using c(1) by (intro contains_ci_split) auto
    with assms(4) rB show False by (simp add: skip_c)
  qed
  then have 1: "remove_pairs think_open think_close (P @ t @ A @ c @ B) = P @ t @ A @ c @ B"
    by (rule remove_pairs_no_open)
  have "trim (P @ (t @ A @ c) @ B) = ?dw P @ (t @ A @ c) @ ?B'"
    using t c ceq_isWhiteSpace [OF t(2)] ceq_isWhiteSpace [OF c(3)]
    by (intro trim_wrap) (auto simp: esc_facts)
  then have 2: "trim (P @ t @ A @ c @ B) = ?dw P @ t @ A @ c @ ?B'" by simp
  have "\<not> contains_ci esc_open (?dw P)" using eP contains_ci_dropWhile by blast
  moreover have "starts_ci esc_open (t @ A @ c @ ?B')"
    using assms(1) by (auto simp: eq_ci_def intro: starts_ci_append)
  ultimately have "remove_pairs esc_open esc_close (?dw P @ (t @ A @ c @ ?B')) =
      ?dw P @ remove_pairs esc_open esc_close (t @ A @ c @ ?B')"
    by (intro remove_pairs_keep_same) (auto simp: unbordered_tags)
  also have "remove_pairs esc_open esc_close (t @ A @ c @ ?B') =
      remove_pairs esc_open esc_close ?B'"
    using assms(1,2,3) by (intro remove_pairs_pair_same) (auto simp: unbordered_tags)
  also have "\<dots> = ?B'"
    using eB contains_ci_trim_end by (intro remove_pairs_no_open) blast
  finally have 3: "remove_pairs esc_open esc_close (?dw P @ t @ A @ c @ ?B') = ?dw P @ ?B'" .
  have 4: "trim (?dw P @ ?B') = trim (P @ B)" by (rule trim_inner)
  have y: "\<not> contains_ci think_open (trim (P @ B))" "\<not> contains_ci esc_open (trim (P @ B))"
    using assms(5,6) contains_ci_trim by blast+
  show ?thesis
    unfolding stripThink_def Let_def 1 2 3 4 using y by (simp add: remove_from_id)
qed

lemma formatMessage_marked:
  "marked d = Some parse \<Longrightarrow> formatMessage d text = renderClean d parse (stripThink text)"
  by (simp add: formatMessage_def)


lemma sanitize_failure_recovered:
  assumes "marked d = Some parse"
    and "protectMath (stripThink text) = (masked, displayMath, inlineMath)"
    and "parse masked = Inr html" and "DOMPurify d = Some sanitize" and "sanitize html = Inl e"
  shows "formatMessage d text = restoreMath displayMath inlineMath masked"
  using assms by (simp add: formatMessage_def renderClean_def parseAndSanitize_def)






lemma backslash_dollar [simp]: "backslash \<noteq> CHR ''$''" "CHR ''$'' \<noteq> backslash"
  by (simp_all add: backslash_def)














section \<open>The turn: invariants of the loop\<close>

lemma submit_awaiting:
  "awaiting (chatHistory a @ [Message UserMsg text])
     (conversationHistory a @ [\<lparr>role = User, content = text\<rparr>]) (submit d text a)"
  by (simp add: awaiting_def submit_def addMessage_def saveHistory_def emit_def setChildren_def scrollToBottom_def initLocals_def
      Let_def)

lemma submit_last_effect:
  "last (effects (fst (submit d text a))) =
     Fetch (conversationHistory a @ [\<lparr>role = User, content = text\<rparr>])"
  by (simp add: submit_def addMessage_def saveHistory_def emit_def setChildren_def scrollToBottom_def Let_def)

lemma onChunk_first:
  assumes "awaiting V H st"
  shows "streaming d V H chunk (onChunk d (vp, chunk) st)"
  using assms
  by (cases st) (simp add: awaiting_def streaming_def onChunk_def addMessage_def emit_def setChildren_def scrollToBottom_def
      removeChild_def Let_def)

lemma onChunk_next:
  assumes "streaming d V H acc st"
  shows "streaming d V H (acc @ chunk) (onChunk d (vp, chunk) st)"
  using assms
  by (cases st) (simp add: streaming_def onChunk_def emit_def setChildren_def scrollToBottom_def Let_def)

lemma fold_streaming:
  "streaming d V H acc st \<Longrightarrow>
     streaming d V H (acc @ concat (map snd evs)) (fold (onChunk d) evs st)"
proof (induction evs arbitrary: acc st)
  case Nil
  then show ?case by simp
next
  case (Cons ev evs)
  obtain vp chunk where ev: "ev = (vp, chunk)" by (cases ev)
  from Cons.prems have "streaming d V H (acc @ chunk) (onChunk d ev st)"
    unfolding ev by (rule onChunk_next)
  from Cons.IH [OF this] show ?case by (simp add: ev)
qed

lemma fold_awaiting:
  assumes "awaiting V H st" and "evs \<noteq> []"
  shows "streaming d V H (concat (map snd evs)) (fold (onChunk d) evs st)"
proof -
  from assms(2) obtain vp chunk rest where evs: "evs = (vp, chunk) # rest"
    by (cases evs) auto
  have "streaming d V H chunk (onChunk d (vp, chunk) st)"
    using assms(1) by (rule onChunk_first)
  from fold_streaming [OF this, of rest] show ?thesis by (simp add: evs)
qed

lemma fold_submit_streaming:
  assumes "evs \<noteq> []"
  shows "streaming d (chatHistory a @ [Message UserMsg text])
           (conversationHistory a @ [\<lparr>role = User, content = text\<rparr>])
           (concat (map snd evs)) (fold (onChunk d) evs (submit d text a))"
  using submit_awaiting assms by (rule fold_awaiting)



lemma onError_awaiting:
  assumes "awaiting V H st"
  shows "chatHistory (onError d st) = V @ [Message SystemMsg (formatMessage d errorText)]"
    and "conversationHistory (onError d st) = H"
  using assms
  by (cases st; simp add: awaiting_def onError_def addMessage_def emit_def setChildren_def scrollToBottom_def removeChild_def Let_def)+

lemma onError_streaming:
  assumes "streaming d V H acc st"
  shows "chatHistory (onError d st) =
           V @ [Message AiMsg (formatMessage d acc), Message SystemMsg (formatMessage d errorText)]"
    and "conversationHistory (onError d st) = H"
  using assms
  by (cases st; simp add: streaming_def onError_def addMessage_def emit_def setChildren_def scrollToBottom_def Let_def)+

lemma finish_history:
  "conversationHistory (finish d vp st) =
     conversationHistory (fst st) @ [\<lparr>role = Assistant, content = rawAiResponse (snd st)\<rparr>]"
  by (cases st) (simp add: finish_def saveHistory_def emit_def setChildren_def scrollToBottom_def Let_def)

lemma finish_view: "chatHistory (finish d vp st) = chatHistory (fst st)"
  by (cases st) (simp add: finish_def saveHistory_def emit_def setChildren_def scrollToBottom_def Let_def)

lemma trim_input: "trim ''What is 2+2?'' = ''What is 2+2?''"
  by (simp add: trim_def isWhiteSpace_def)

lemma fold_history:
  "conversationHistory (fst (fold (onChunk d) evs (submit d text a))) =
     conversationHistory a @ [\<lparr>role = User, content = text\<rparr>]"
proof (cases "evs = []")
  case True
  then show ?thesis using submit_awaiting [of a "text" d] by (simp add: awaiting_def)
next
  case False
  then show ?thesis using fold_submit_streaming [of evs d a "text"] by (simp add: streaming_def)
qed

lemma fold_raw:
  "rawAiResponse (snd (fold (onChunk d) evs (submit d text a))) = concat (map snd evs)"
  and fold_accumulated:
  "accumulatedText (snd (fold (onChunk d) evs (submit d text a))) = concat (map snd evs)"
proof -
  show "rawAiResponse (snd (fold (onChunk d) evs (submit d text a))) = concat (map snd evs)"
  proof (cases "evs = []")
    case True
    then show ?thesis using submit_awaiting [of a "text" d] by (simp add: awaiting_def)
  next
    case False
    then show ?thesis using fold_submit_streaming [of evs d a "text"] by (simp add: streaming_def)
  qed
  show "accumulatedText (snd (fold (onChunk d) evs (submit d text a))) = concat (map snd evs)"
  proof (cases "evs = []")
    case True
    then show ?thesis using submit_awaiting [of a "text" d] by (simp add: awaiting_def)
  next
    case False
    then show ?thesis using fold_submit_streaming [of evs d a "text"] by (simp add: streaming_def)
  qed
qed

lemma sendMessage_done:
  assumes "trim (messageInput a) = text" and "text \<noteq> []"
  shows "sendMessage d (Response True evs (Done vp)) a =
           finish d vp (fold (onChunk d) evs (submit d text a))"
  using assms by (simp add: sendMessage_def receive_def Let_def)

lemma sendMessage_failed:
  assumes "trim (messageInput a) = text" and "text \<noteq> []" and "transportFailure resp"
  shows "sendMessage d resp a =
           onError d (case resp of
                        FetchFailed \<Rightarrow> submit d text a
                      | Response ok evs ending \<Rightarrow>
                          if ok then fold (onChunk d) evs (submit d text a) else submit d text a)"
  using assms
  by (auto simp: sendMessage_def receive_def transportFailure_def Let_def
      split: response.splits streamEnd.splits if_splits)

section \<open>The auto-scroll decision\<close>



section \<open>Chunk boundaries\<close>

text \<open>
  C1. However a response text \<open>S\<close> is cut into chunks, the loop accumulates exactly \<open>S\<close>, and
  after the last chunk the reply's bubble holds \<open>formatMessage\<close> of \<open>S\<close>: the view depends on
  \<open>S\<close> only, not on where the chunks end. (With no chunk at all there is no bubble, and
  the view still ends in the loading animation.)
\<close>

theorem chunking_irrelevant:
  assumes "concat (map snd evs) = S"
  shows "accumulatedText (snd (fold (onChunk d) evs (submit d text a))) = S \<and>
         (if evs = [] then chatHistory (fst (fold (onChunk d) evs (submit d text a))) =
              chatHistory a @ [Message UserMsg text, Loading]
          else chatHistory (fst (fold (onChunk d) evs (submit d text a))) =
              chatHistory a @ [Message UserMsg text, Message AiMsg (formatMessage d S)])"
proof (cases "evs = []")
  case True
  then show ?thesis using assms submit_awaiting [of a "text" d] by (simp add: awaiting_def)
next
  case False
  then show ?thesis using assms fold_submit_streaming [of evs d a "text"]
    by (simp add: streaming_def)
qed


text \<open>Two ways of cutting \<open>2+2=4\<close> end in the same view.\<close>

theorem chunking_irrelevant_witness:
  "concat (map snd [(farFromBottom, ''2+2''), (farFromBottom, ''=4'')]) = ''2+2=4'' \<and>
   concat (map snd [(farFromBottom, ''2''), (farFromBottom, ''+2''), (farFromBottom, ''=4'')]) =
     ''2+2=4'' \<and>
   chatHistory (fst (fold (onChunk plainDeps) [(farFromBottom, ''2+2''), (farFromBottom, ''=4'')]
     (submit plainDeps ''q'' freshApp))) =
   chatHistory (fst (fold (onChunk plainDeps)
     [(farFromBottom, ''2''), (farFromBottom, ''+2''), (farFromBottom, ''=4'')]
     (submit plainDeps ''q'' freshApp)))"
  using chunking_irrelevant [of "[(farFromBottom, ''2+2''), (farFromBottom, ''=4'')]" "''2+2=4''"
      plainDeps "''q''" freshApp]
    chunking_irrelevant
      [of "[(farFromBottom, ''2''), (farFromBottom, ''+2''), (farFromBottom, ''=4'')]" "''2+2=4''"
      plainDeps "''q''" freshApp]
  by simp

section \<open>The transcript\<close>

text \<open>
  C6. On a submission with a non-empty (trimmed) text, the user turn is in the transcript
  when the request is dispatched, and the request carries it. While chunks arrive the
  transcript stays as it is. When the stream is done, one assistant turn is
  appended, and its content is the whole of the raw response text.
\<close>

theorem transcript_order:
  assumes "trim (messageInput a) = text" and "text \<noteq> []"
  shows "conversationHistory (fst (submit d text a)) =
           conversationHistory a @ [\<lparr>role = User, content = text\<rparr>] \<and>
         last (effects (fst (submit d text a))) =
           Fetch (conversationHistory a @ [\<lparr>role = User, content = text\<rparr>]) \<and>
         conversationHistory (fst (fold (onChunk d) evs (submit d text a))) =
           conversationHistory a @ [\<lparr>role = User, content = text\<rparr>] \<and>
         conversationHistory (sendMessage d (Response True evs (Done vp)) a) =
           conversationHistory a @
             [\<lparr>role = User, content = text\<rparr>,
              \<lparr>role = Assistant, content = concat (map snd evs)\<rparr>]"
proof -
  have "conversationHistory (fst (submit d text a)) =
      conversationHistory a @ [\<lparr>role = User, content = text\<rparr>]"
    using fold_history [of d "[]" "text" a] by simp
  moreover note submit_last_effect [of d "text" a] fold_history [of d evs "text" a]
  moreover have "conversationHistory (sendMessage d (Response True evs (Done vp)) a) =
      conversationHistory a @
        [\<lparr>role = User, content = text\<rparr>, \<lparr>role = Assistant, content = concat (map snd evs)\<rparr>]"
    by (simp add: sendMessage_done [OF assms] finish_history fold_history fold_raw)
  ultimately show ?thesis by simp
qed


theorem transcript_order_witness:
  "trim (messageInput freshApp) = ''What is 2+2?'' \<and>
   conversationHistory (fst (fold (onChunk plainDeps) [(farFromBottom, ''It is '')]
     (submit plainDeps ''What is 2+2?'' freshApp))) =
     [\<lparr>role = User, content = ''What is 2+2?''\<rparr>] \<and>
   conversationHistory (sendMessage plainDeps
     (Response True [(farFromBottom, ''It is ''), (farFromBottom, ''4'')] (Done farFromBottom))
     freshApp) =
     [\<lparr>role = User, content = ''What is 2+2?''\<rparr>, \<lparr>role = Assistant, content = ''It is 4''\<rparr>]"
proof -
  have t: "trim (messageInput freshApp) = ''What is 2+2?''"
    by (simp add: freshApp_def trim_input)
  have n: "''What is 2+2?'' \<noteq> []" by simp
  show ?thesis
    using t transcript_order [OF t n, of plainDeps "[(farFromBottom, ''It is '')]" farFromBottom]
      transcript_order [OF t n, of plainDeps
        "[(farFromBottom, ''It is ''), (farFromBottom, ''4'')]" farFromBottom]
    by (simp add: freshApp_def)
qed

text \<open>
  C8, as the code has it. When the request fails, the response is not \<open>ok\<close>, or a read of
  the stream fails after any number of chunks, the loading animation is taken out of the
  view if it is still there, exactly one system message with the error text is appended
  to the view, and the transcript holds the user's turn and no assistant turn. The
  reply's bubble, once chunks have made it, is not taken out: it stays in the view with
  the text streamed so far, in front of the system message.
\<close>

theorem transport_failure:
  assumes "trim (messageInput a) = text" and "text \<noteq> []" and "transportFailure resp"
  shows "chatHistory (sendMessage d resp a) =
           chatHistory a @ [Message UserMsg text] @ streamedSoFar d resp @
             [Message SystemMsg (formatMessage d errorText)] \<and>
         conversationHistory (sendMessage d resp a) =
           conversationHistory a @ [\<lparr>role = User, content = text\<rparr>]"
proof -
  let ?V = "chatHistory a @ [Message UserMsg text]"
  let ?H = "conversationHistory a @ [\<lparr>role = User, content = text\<rparr>]"
  let ?sys = "Message SystemMsg (formatMessage d errorText)"
  have idle: "chatHistory (onError d (submit d text a)) = ?V @ [?sys]"
    "conversationHistory (onError d (submit d text a)) = ?H"
    using onError_awaiting [OF submit_awaiting] by simp_all
  have busy: "chatHistory (onError d (fold (onChunk d) evs (submit d text a))) =
        ?V @ [Message AiMsg (formatMessage d (concat (map snd evs))), ?sys]"
      "conversationHistory (onError d (fold (onChunk d) evs (submit d text a))) = ?H"
    if "evs \<noteq> []" for evs
    using onError_streaming [OF fold_submit_streaming [OF that]] by simp_all
  note eq = sendMessage_failed [OF assms, of d]
  show ?thesis
  proof (cases resp)
    case FetchFailed
    with eq have "sendMessage d resp a = onError d (submit d text a)" by simp
    with idle show ?thesis by (simp add: FetchFailed streamedSoFar_def)
  next
    case (Response ok evs ending)
    show ?thesis
    proof (cases "ok \<and> evs \<noteq> []")
      case True
      with eq Response
      have "sendMessage d resp a = onError d (fold (onChunk d) evs (submit d text a))" by simp
      with busy [of evs] True show ?thesis by (simp add: Response streamedSoFar_def)
    next
      case False
      with eq Response have "sendMessage d resp a = onError d (submit d text a)" by auto
      with idle False show ?thesis by (auto simp: Response streamedSoFar_def)
    qed
  qed
qed


theorem transport_failure_witness:
  "transportFailure (Response True [(farFromBottom, ''It is '')] ReadFailed) \<and>
   chatHistory (sendMessage plainDeps (Response True [(farFromBottom, ''It is '')] ReadFailed)
     freshApp) =
     [Message UserMsg ''What is 2+2?'', Message AiMsg (formatMessage plainDeps ''It is ''),
      Message SystemMsg (formatMessage plainDeps errorText)] \<and>
   chatHistory (sendMessage plainDeps FetchFailed freshApp) =
     [Message UserMsg ''What is 2+2?'', Message SystemMsg (formatMessage plainDeps errorText)] \<and>
   conversationHistory (sendMessage plainDeps FetchFailed freshApp) =
     [\<lparr>role = User, content = ''What is 2+2?''\<rparr>]"
proof -
  have t: "trim (messageInput freshApp) = ''What is 2+2?''"
    by (simp add: freshApp_def trim_input)
  have n: "''What is 2+2?'' \<noteq> []" by simp
  have f1: "transportFailure (Response True [(farFromBottom, ''It is '')] ReadFailed)"
    by (simp add: transportFailure_def)
  have f2: "transportFailure FetchFailed"
    by (simp add: transportFailure_def)
  show ?thesis
    using f1 transport_failure [OF t n f1, of plainDeps] transport_failure [OF t n f2, of plainDeps]
    by (simp add: freshApp_def streamedSoFar_def)
qed

text \<open>
  The claim as it is written has the bubble removed as well. After one chunk and a
  failed read the view still holds the bubble with that chunk's text.
\<close>

theorem transport_failure_counterexample:
  "chatHistory (sendMessage plainDeps (Response True [(farFromBottom, ''It is '')] ReadFailed)
     freshApp) =
     [Message UserMsg ''What is 2+2?'', Message AiMsg ''It is'', Message SystemMsg errorText]"
  by code_simp

text \<open>
  C7. When the stream is done before any chunk has come, no bubble is made for the reply
  and the loading animation stays in the view; the transcript gets the user's turn and
  then an assistant turn with empty content.
\<close>

theorem empty_stream_turn:
  assumes "trim (messageInput a) = text" and "text \<noteq> []"
  shows "conversationHistory (sendMessage d (Response True [] (Done vp)) a) =
           conversationHistory a @
             [\<lparr>role = User, content = text\<rparr>, \<lparr>role = Assistant, content = []\<rparr>] \<and>
         chatHistory (sendMessage d (Response True [] (Done vp)) a) =
           chatHistory a @ [Message UserMsg text, Loading]"
  using submit_awaiting [of a "text" d]
  by (simp add: sendMessage_done [OF assms] finish_history finish_view awaiting_def)

theorem empty_stream_turn_witness:
  "trim (messageInput freshApp) = ''What is 2+2?'' \<and>
   conversationHistory (sendMessage plainDeps (Response True [] (Done farFromBottom)) freshApp) =
     [\<lparr>role = User, content = ''What is 2+2?''\<rparr>, \<lparr>role = Assistant, content = []\<rparr>] \<and>
   chatHistory (sendMessage plainDeps (Response True [] (Done farFromBottom)) freshApp) =
     [Message UserMsg ''What is 2+2?'', Loading]"
proof -
  have t: "trim (messageInput freshApp) = ''What is 2+2?''"
    by (simp add: freshApp_def trim_input)
  have n: "''What is 2+2?'' \<noteq> []" by simp
  show ?thesis
    using t empty_stream_turn [OF t n, of plainDeps farFromBottom]
    by (simp add: freshApp_def)
qed

section \<open>Suppression of the reasoning section\<close>

text \<open>
  C10. For every input, the text that the four removal passes hand to math masking
  contains no start tag, in neither spelling (\<^verbatim>\<open><think>\<close>, \<^verbatim>\<open>&lt;think&gt;\<close>) and in
  no character case: whatever the pair removal leaves or splices together, the two
  passes that cut from a start tag to the end of the string remove it.
\<close>

theorem stripThink_no_start_tag:
  "\<not> contains_ci ''<think>'' (stripThink text) \<and>
   \<not> contains_ci ''&lt;think&gt;'' (stripThink text)"
proof -
  define x where "x = trim (remove_pairs esc_open esc_close
    (trim (remove_pairs think_open think_close text)))"
  define y where "y = trim (remove_from think_open x)"
  define z where "z = remove_from esc_open y"
  have s: "stripThink text = trim z"
    by (simp add: stripThink_def x_def y_def z_def Let_def)
  have "\<not> contains_ci think_open (remove_from think_open x)"
    by (rule remove_from_clean) (simp add: think_open_def)
  then have y: "\<not> contains_ci think_open y"
    unfolding y_def using contains_ci_trim by blast
  obtain r where "y = z @ r" unfolding z_def using remove_from_prefix by blast
  with y have "\<not> contains_ci think_open z" using contains_ci_appendI1 by metis
  then have 1: "\<not> contains_ci think_open (trim z)" using contains_ci_trim by blast
  have "\<not> contains_ci esc_open z"
    unfolding z_def by (rule remove_from_clean) (simp add: esc_open_def)
  then have 2: "\<not> contains_ci esc_open (trim z)" using contains_ci_trim by blast
  from 1 2 show ?thesis by (simp add: s think_open_def esc_open_def)
qed

theorem stripThink_no_start_tag_witness:
  "\<not> contains_ci ''<think>'' (stripThink ''<thi<THINK>a</think>nk>b'') \<and>
   \<not> contains_ci ''&lt;think&gt;'' (stripThink ''<thi<THINK>a</think>nk>b'')"
  using stripThink_no_start_tag [of "''<thi<THINK>a</think>nk>b''"] by simp

text \<open>
  C2, as the code has it. With a markdown engine loaded, take a text
  \<open>P @ t @ A @ c @ B\<close> where \<open>t\<close> and \<open>c\<close> are a start tag and an end tag in the same spelling
  (raw or entity-escaped, in any case), \<open>A\<close> holds no end tag of that spelling (and, for
  the escaped spelling, no raw start tag), and \<open>P @ B\<close> holds no start tag of either
  spelling. Then the pair removal takes out \<open>t @ A @ c\<close>, whatever \<open>A\<close> is (line breaks
  included), before the passes for an unfinished tag run, and these find nothing: the
  text handed on is \<open>P @ B\<close> trimmed, and the output is that text rendered. \<open>A\<close> has no
  part in it and \<open>B\<close> is there.
\<close>

theorem think_pair_removed:
  assumes "marked d = Some parse"
    and "(eq_ci t ''<think>'' \<and> eq_ci c ''</think>'' \<and> \<not> contains_ci ''</think>'' A) \<or>
         (eq_ci t ''&lt;think&gt;'' \<and> eq_ci c ''&lt;/think&gt;'' \<and>
          \<not> contains_ci ''&lt;/think&gt;'' A \<and> \<not> contains_ci ''<think>'' A)"
    and "\<not> contains_ci ''<think>'' (P @ B)" and "\<not> contains_ci ''&lt;think&gt;'' (P @ B)"
  shows "stripThink (P @ t @ A @ c @ B) = trim (P @ B) \<and>
         formatMessage d (P @ t @ A @ c @ B) = renderClean d parse (trim (P @ B))"
proof -
  have "stripThink (P @ t @ A @ c @ B) = trim (P @ B)"
    using assms(2)
  proof
    assume "eq_ci t ''<think>'' \<and> eq_ci c ''</think>'' \<and> \<not> contains_ci ''</think>'' A"
    then show ?thesis
      using assms(3,4) stripThink_pair [of t c A P B]
      by (simp add: think_open_def think_close_def esc_open_def)
  next
    assume "eq_ci t ''&lt;think&gt;'' \<and> eq_ci c ''&lt;/think&gt;'' \<and>
          \<not> contains_ci ''&lt;/think&gt;'' A \<and> \<not> contains_ci ''<think>'' A"
    then show ?thesis
      using assms(3,4) stripThink_escaped_pair [of t c A P B]
      by (simp add: think_open_def esc_close_def esc_open_def)
  qed
  then show ?thesis using assms(1) by (simp add: formatMessage_marked)
qed

theorem think_pair_removed_witness:
  "marked plainDeps = Some Inr \<and>
   eq_ci ''<THINK>'' ''<think>'' \<and> eq_ci ''</Think>'' ''</think>'' \<and>
   \<not> contains_ci ''</think>'' (''a'' @ [newline] @ ''b'') \<and>
   eq_ci ''&LT;think&gt;'' ''&lt;think&gt;'' \<and> eq_ci ''&lt;/THINK&gt;'' ''&lt;/think&gt;'' \<and>
   \<not> contains_ci ''&lt;/think&gt;'' ''<a>'' \<and> \<not> contains_ci ''<think>'' ''<a>'' \<and>
   \<not> contains_ci ''<think>'' (''x '' @ '' y'') \<and>
   \<not> contains_ci ''&lt;think&gt;'' (''x '' @ '' y'') \<and>
   stripThink (''x '' @ ''<THINK>'' @ (''a'' @ [newline] @ ''b'') @ ''</Think>'' @ '' y'') =
     ''x  y'' \<and>
   formatMessage plainDeps
     (''x '' @ ''<THINK>'' @ (''a'' @ [newline] @ ''b'') @ ''</Think>'' @ '' y'') =
     renderClean plainDeps Inr ''x  y'' \<and>
   stripThink (''x '' @ ''&LT;think&gt;'' @ ''<a>'' @ ''&lt;/THINK&gt;'' @ '' y'') = ''x  y''"
proof -
  have h1: "marked plainDeps = Some Inr" by (simp add: plainDeps_def)
  have a: "eq_ci ''<THINK>'' ''<think>''" "eq_ci ''</Think>'' ''</think>''"
    "\<not> contains_ci ''</think>'' (''a'' @ [newline] @ ''b'')"
    by code_simp+
  then have h2: "(eq_ci ''<THINK>'' ''<think>'' \<and> eq_ci ''</Think>'' ''</think>'' \<and>
      \<not> contains_ci ''</think>'' (''a'' @ [newline] @ ''b'')) \<or>
     (eq_ci ''<THINK>'' ''&lt;think&gt;'' \<and> eq_ci ''</Think>'' ''&lt;/think&gt;'' \<and>
      \<not> contains_ci ''&lt;/think&gt;'' (''a'' @ [newline] @ ''b'') \<and>
      \<not> contains_ci ''<think>'' (''a'' @ [newline] @ ''b''))"
    by blast
  have b: "eq_ci ''&LT;think&gt;'' ''&lt;think&gt;''" "eq_ci ''&lt;/THINK&gt;'' ''&lt;/think&gt;''"
    "\<not> contains_ci ''&lt;/think&gt;'' ''<a>''" "\<not> contains_ci ''<think>'' ''<a>''"
    by code_simp+
  then have h2': "(eq_ci ''&LT;think&gt;'' ''<think>'' \<and> eq_ci ''&lt;/THINK&gt;'' ''</think>'' \<and>
      \<not> contains_ci ''</think>'' ''<a>'') \<or>
     (eq_ci ''&LT;think&gt;'' ''&lt;think&gt;'' \<and> eq_ci ''&lt;/THINK&gt;'' ''&lt;/think&gt;'' \<and>
      \<not> contains_ci ''&lt;/think&gt;'' ''<a>'' \<and> \<not> contains_ci ''<think>'' ''<a>'')"
    by blast
  have h3: "\<not> contains_ci ''<think>'' (''x '' @ '' y'')" by code_simp
  have h4: "\<not> contains_ci ''&lt;think&gt;'' (''x '' @ '' y'')" by code_simp
  have e: "trim (''x '' @ '' y'') = ''x  y''" by code_simp
  show ?thesis
    using h1 a b h3 h4 think_pair_removed [OF h1 h2 h3 h4] think_pair_removed [OF h1 h2' h3 h4]
    by (simp only: e simp_thms)
qed

text \<open>
  The claim as it is written leaves the text in front of the pair free. In
  \<^verbatim>\<open><thi<think>a</think>nk>b\<close> neither \<open>a\<close> nor \<open>nk>b\<close> holds a tag, yet once the pair
  is gone the text around it reads \<^verbatim>\<open><think>b\<close>, and the pass for an unfinished tag
  removes all of it: nothing of \<open>nk>b\<close> is in the output.
\<close>

theorem think_pair_counterexample:
  "\<not> contains_ci ''<think>'' ''a'' \<and> \<not> contains_ci ''</think>'' ''a'' \<and>
   \<not> contains_ci ''&lt;think&gt;'' ''a'' \<and> \<not> contains_ci ''&lt;/think&gt;'' ''a'' \<and>
   \<not> contains_ci ''<think>'' ''nk>b'' \<and> \<not> contains_ci ''</think>'' ''nk>b'' \<and>
   \<not> contains_ci ''&lt;think&gt;'' ''nk>b'' \<and> \<not> contains_ci ''&lt;/think&gt;'' ''nk>b'' \<and>
   formatMessage plainDeps ''nk>b'' = ''nk>b'' \<and>
   formatMessage plainDeps (''<thi'' @ ''<think>'' @ ''a'' @ ''</think>'' @ ''nk>b'') = []"
  by code_simp

text \<open>
  C3, as the code has it. With a markdown engine loaded, when the buffer ends in
  \<^verbatim>\<open><think>\<close> and a text \<open>C\<close> that holds no end tag (in either spelling), the output is
  the output for the buffer cut off behind the tag: \<open>C\<close> has no part in it. Once
  \<^verbatim>\<open></think>\<close> and \<open>D\<close> have been appended, and the text \<open>P\<close> in front of the tag together
  with \<open>D\<close> holds no start tag of either spelling, the output is \<open>P @ D\<close> trimmed and
  rendered: without \<open>C\<close>, with \<open>D\<close>.
\<close>

theorem unterminated_think_hidden:
  assumes "marked d = Some parse"
    and "\<not> contains_ci ''</think>'' C" and "\<not> contains_ci ''&lt;/think&gt;'' C"
  shows "formatMessage d (P @ ''<think>'' @ C) = formatMessage d (P @ ''<think>'') \<and>
         (\<not> contains_ci ''<think>'' (P @ D) \<and> \<not> contains_ci ''&lt;think&gt;'' (P @ D) \<longrightarrow>
          formatMessage d (P @ ''<think>'' @ C @ ''</think>'' @ D) =
            renderClean d parse (trim (P @ D)))"
proof -
  have "stripThink (P @ ''<think>'' @ C) = stripThink (P @ ''<think>'')"
    using assms(2,3) stripThink_open_tail [of C P]
    by (simp add: think_open_def think_close_def esc_close_def)
  then have 1: "formatMessage d (P @ ''<think>'' @ C) = formatMessage d (P @ ''<think>'')"
    using assms(1) by (simp add: formatMessage_marked)
  have "stripThink (P @ ''<think>'' @ C @ ''</think>'' @ D) = trim (P @ D)"
    if "\<not> contains_ci ''<think>'' (P @ D)" and "\<not> contains_ci ''&lt;think&gt;'' (P @ D)"
    using that assms(2) stripThink_pair [of "''<think>''" "''</think>''" C P D]
    by (simp add: think_open_def think_close_def esc_open_def eq_ci_def)
  then show ?thesis using 1 assms(1) by (simp add: formatMessage_marked)
qed

theorem unterminated_think_hidden_witness:
  "marked plainDeps = Some Inr \<and>
   \<not> contains_ci ''</think>'' ''step 1'' \<and> \<not> contains_ci ''&lt;/think&gt;'' ''step 1'' \<and>
   \<not> contains_ci ''<think>'' (''Hi '' @ '' 4'') \<and>
   \<not> contains_ci ''&lt;think&gt;'' (''Hi '' @ '' 4'') \<and>
   formatMessage plainDeps (''Hi '' @ ''<think>'' @ ''step 1'') =
     formatMessage plainDeps (''Hi '' @ ''<think>'') \<and>
   formatMessage plainDeps (''Hi '' @ ''<think>'' @ ''step 1'' @ ''</think>'' @ '' 4'') =
     renderClean plainDeps Inr (trim (''Hi '' @ '' 4''))"
proof -
  have h1: "marked plainDeps = Some Inr" by (simp add: plainDeps_def)
  have h2: "\<not> contains_ci ''</think>'' ''step 1''" by code_simp
  have h3: "\<not> contains_ci ''&lt;/think&gt;'' ''step 1''" by code_simp
  have h4: "\<not> contains_ci ''<think>'' (''Hi '' @ '' 4'')" by code_simp
  have h5: "\<not> contains_ci ''&lt;think&gt;'' (''Hi '' @ '' 4'')" by code_simp
  show ?thesis
    using h1 h2 h3 h4 h5 unterminated_think_hidden [OF h1 h2 h3, of "''Hi ''" "'' 4''"]
    by (simp only: simp_thms)
qed

text \<open>
  The claim as it is written leaves the text in front of the tag free. When that text
  holds an unfinished escaped start tag, as in \<^verbatim>\<open>&lt;think&gt;<think>c\<close>, then after
  \<^verbatim>\<open></think>d\<close> has come the pair is removed, and the pass for an unfinished escaped tag
  removes the rest: \<open>d\<close> is not in the output.
\<close>

theorem unterminated_think_counterexample:
  "\<not> contains_ci ''</think>'' ''c'' \<and> \<not> contains_ci ''&lt;/think&gt;'' ''c'' \<and>
   formatMessage plainDeps ''d'' = ''d'' \<and>
   formatMessage plainDeps (''&lt;think&gt;'' @ ''<think>'' @ ''c'') = [] \<and>
   formatMessage plainDeps (''&lt;think&gt;'' @ ''<think>'' @ ''c'' @ ''</think>'' @ ''d'') = []"
  by code_simp

section \<open>Math spans\<close>

text \<open>
  C4. A display span that stands alone comes back trimmed and in double dollars, in
  either spelling. The input \<^verbatim>\<open>$5 $$x^2$$ $6\<close> holds the display span \<^verbatim>\<open>$$x^2$$\<close>, and
  masking stores its body \<open>x^2\<close>. The inline expression then matches from the first dollar sign to the
  last one and takes the display token into an inline span. Restoration replaces display
  tokens first, when the token is not in the markup, and inline tokens second: the
  output shows the token \<^verbatim>\<open>%%%DISPLAY0%%%\<close> and holds \<^verbatim>\<open>$$x^2$$\<close> nowhere, with an
  engine that returns its input unchanged.
\<close>

theorem display_span_lost:
  "formatMessage plainDeps ''$$ x^2 $$'' = ''$$x^2$$'' \<and>
   formatMessage plainDeps ([backslash, CHR ''[''] @ ''x^2'' @ [backslash, CHR '']'']) = ''$$x^2$$'' \<and>
   snd (maskDisplay [] ''$5 $$x^2$$ $6'') = [''x^2''] \<and>
   formatMessage plainDeps ''$5 $$x^2$$ $6'' =
     [backslash, CHR ''(''] @ ''5 %%%DISPLAY0%%%'' @ [backslash, CHR '')''] @ ''6'' \<and>
   split_first ''$$x^2$$'' (formatMessage plainDeps ''$5 $$x^2$$ $6'') = None"
  by code_simp

section \<open>Parse failures\<close>




end
